theory Spec2Isabelle
  imports Main "HOL-Library.Multiset" "HOL-Library.Sublist"
begin

section \<open>The stats fan-in collector: \<open>logStatsForContainers\<close>\<close>

text \<open>
  The collector of \<^verbatim>\<open>src/unnamed/part_000\<close> (lines 140-186 and, with the same body,
  lines 385-431) is a set of goroutines that meet on unbuffered channels. It is modelled
  as a labelled transition system: a configuration holds the program counter of every
  goroutine and what the channels can deliver, an action is one communication or one
  branch of a \<^verbatim>\<open>select\<close>, and a schedule is a list of actions. Go's \<^verbatim>\<open>select\<close> picks
  any branch that can proceed, so every action whose guard holds may be scheduled.

  A value of type \<^verbatim>\<open>*docker.Stats\<close> is \<open>'a option\<close>: \<open>None\<close> is the nil pointer.
\<close>

text \<open>
  The sending side of one \<^verbatim>\<open>contStats\<close> channel: the call \<^verbatim>\<open>client.Stats\<close> of the
  client library still has the listed values to send, or it has returned and closed
  the channel.
\<close>

datatype 'a source = Streaming "'a option list" | Closed

text \<open>
  The forwarding goroutine (lines 155-171): not yet scheduled, waiting in its
  \<^verbatim>\<open>select\<close>, blocked in \<^verbatim>\<open>statsChan <- stat\<close>, or returned.
\<close>

datatype 'a fwd = Spawned | Selecting | Sending "'a option" | Exited

text \<open>The merge loop (lines 174-184): in its \<^verbatim>\<open>select\<close>, or returned.\<close>

datatype merge = Merging | Returned

text \<open>
  The lines the forwarding goroutines print with \<^verbatim>\<open>log.Printf\<close>, each with the
  container identifier it prints (\<open>ListeningForMore\<close> is printed by \<^verbatim>\<open>src/main.go\<close>
  only, and names no container).
\<close>

datatype logline =
  Listening string | Received string | NoLongerStreaming string | ListeningForMore

record 'a forwarder =
  cont_id :: string
  contStats :: "'a source"
  pc :: "'a fwd"

text \<open>
  The shared part of a fan-in: the context, the forwarding tasks, the merge loop, the
  sink and the log. The task type is a parameter, because \<^verbatim>\<open>src/main.go\<close> runs the
  same merge loop over forwarders of another shape.
\<close>

record ('a, 't) fanin =
  ctxDone :: bool
  tasks :: "'t list"
  merger :: merge
  out :: "'a option list"
  logs :: "logline list"

type_synonym 'a collector = "('a, 'a forwarder) fanin"

text \<open>
  The body of the merge loop once it has received \<open>stat\<close> from \<^verbatim>\<open>statsChan\<close>:
  \<^verbatim>\<open>if stat == nil { continue }; fmt.Fprintf(out, "%#v\n", stat)\<close>.
  The sink is the list of the pointers that were formatted into it.
\<close>

definition fprintf_stat :: "'a option list \<Rightarrow> 'a option \<Rightarrow> 'a option list" where
  "fprintf_stat sink stat = (case stat of None \<Rightarrow> sink | Some v \<Rightarrow> sink @ [Some v])"

datatype action =
    Cancel
  | StreamEnd nat
  | FwdStart nat
  | FwdDone nat
  | FwdRecv nat
  | Handoff nat
  | MergeDone

text \<open>
  \<^item> \<open>Cancel\<close>: the caller's \<^verbatim>\<open>cancel()\<close>; \<^verbatim>\<open>ctx.Done()\<close> is closed from then on.
  \<^item> \<open>StreamEnd i\<close>: the \<^verbatim>\<open>client.Stats\<close> call of container \<open>i\<close> returns and closes
    \<^verbatim>\<open>contStats\<close>, because its stream is exhausted or because the context is cancelled.
  \<^item> \<open>FwdStart i\<close>: the forwarding goroutine starts and prints its first line.
  \<^item> \<open>FwdDone i\<close>: the branch \<^verbatim>\<open>case <-ctx.Done(): return\<close> of the forwarder.
  \<^item> \<open>FwdRecv i\<close>: the branch \<^verbatim>\<open>case stat, ok := <-contStats\<close>: on a closed channel
    (\<^verbatim>\<open>!ok\<close>) the goroutine logs and returns, otherwise it logs and goes on to
    \<^verbatim>\<open>statsChan <- stat\<close>.
  \<^item> \<open>Handoff i\<close>: the unbuffered \<^verbatim>\<open>statsChan\<close> rendezvous: forwarder \<open>i\<close> completes its
    send, the merge loop takes its branch \<^verbatim>\<open>case stat := <-statsChan\<close>.
  \<^item> \<open>MergeDone\<close>: the branch \<^verbatim>\<open>case <-ctx.Done(): return\<close> of the merge loop.
\<close>

fun step :: "action \<Rightarrow> 'a collector \<Rightarrow> 'a collector option" where
  "step Cancel s = Some (s\<lparr>ctxDone := True\<rparr>)"
| "step (StreamEnd i) s =
     (if i < length (tasks s) then
        (case contStats (tasks s ! i) of
           Streaming xs \<Rightarrow>
             if xs = [] \<or> ctxDone s
             then Some (s\<lparr>tasks := (tasks s)[i := (tasks s ! i)\<lparr>contStats := Closed\<rparr>]\<rparr>)
             else None
         | Closed \<Rightarrow> None)
      else None)"
| "step (FwdStart i) s =
     (if i < length (tasks s) \<and> pc (tasks s ! i) = Spawned
      then Some (s\<lparr>tasks := (tasks s)[i := (tasks s ! i)\<lparr>pc := Selecting\<rparr>],
                   logs := logs s @ [Listening (cont_id (tasks s ! i))]\<rparr>)
      else None)"
| "step (FwdDone i) s =
     (if i < length (tasks s) \<and> pc (tasks s ! i) = Selecting \<and> ctxDone s
      then Some (s\<lparr>tasks := (tasks s)[i := (tasks s ! i)\<lparr>pc := Exited\<rparr>]\<rparr>)
      else None)"
| "step (FwdRecv i) s =
     (if i < length (tasks s) \<and> pc (tasks s ! i) = Selecting then
        (case contStats (tasks s ! i) of
           Closed \<Rightarrow>
             Some (s\<lparr>tasks := (tasks s)[i := (tasks s ! i)\<lparr>pc := Exited\<rparr>],
                     logs := logs s @ [NoLongerStreaming (cont_id (tasks s ! i))]\<rparr>)
         | Streaming [] \<Rightarrow> None
         | Streaming (x # xs) \<Rightarrow>
             Some (s\<lparr>tasks := (tasks s)[i := (tasks s ! i)\<lparr>contStats := Streaming xs,
                                                            pc := Sending x\<rparr>],
                     logs := logs s @ [Received (cont_id (tasks s ! i))]\<rparr>))
      else None)"
| "step (Handoff i) s =
     (if i < length (tasks s) \<and> merger s = Merging then
        (case pc (tasks s ! i) of
           Sending x \<Rightarrow>
             Some (s\<lparr>tasks := (tasks s)[i := (tasks s ! i)\<lparr>pc := Selecting\<rparr>],
                     out := fprintf_stat (out s) x\<rparr>)
         | _ \<Rightarrow> None)
      else None)"
| "step MergeDone s =
     (if merger s = Merging \<and> ctxDone s then Some (s\<lparr>merger := Returned\<rparr>) else None)"

text \<open>A schedule runs from a configuration; it is refused as soon as one action cannot proceed.\<close>

fun run :: "action list \<Rightarrow> 'a collector \<Rightarrow> 'a collector option" where
  "run [] s = Some s"
| "run (a # as) s = (case step a s of None \<Rightarrow> None | Some s' \<Rightarrow> run as s')"

text \<open>
  The configuration \<^verbatim>\<open>logStatsForContainers\<close> sets up before its merge loop: one
  \<^verbatim>\<open>contStats\<close> channel, one \<^verbatim>\<open>client.Stats\<close> call and one forwarding goroutine per
  identifier, an empty sink. \<open>daemon\<close> is the environment: the values the daemon's
  statistics stream of a container would deliver.
\<close>

definition logStatsForContainers ::
  "(string \<Rightarrow> 'a option list) \<Rightarrow> string list \<Rightarrow> 'a collector" where
  "logStatsForContainers daemon containerIDs =
     \<lparr>ctxDone = False,
      tasks = map (\<lambda>c. \<lparr>cont_id = c, contStats = Streaming (daemon c), pc = Spawned\<rparr>) containerIDs,
      merger = Merging,
      out = [],
      logs = []\<rparr>"

section \<open>What is still on its way to the sink\<close>

definition nonnil :: "'a option list \<Rightarrow> 'a option list" where
  "nonnil xs = filter (\<lambda>x. x \<noteq> None) xs"

text \<open>The value a forwarder holds while it is blocked in \<^verbatim>\<open>statsChan <- stat\<close>.\<close>

fun held :: "'a fwd \<Rightarrow> 'a option list" where
  "held (Sending x) = [x]"
| "held _ = []"

fun pending :: "'a source \<Rightarrow> 'a option list" where
  "pending (Streaming xs) = xs"
| "pending Closed = []"

definition backlog :: "'a forwarder \<Rightarrow> 'a option list" where
  "backlog t = held (pc t) @ pending (contStats t)"

section \<open>Basic facts about schedules\<close>

lemma run_append: "run (as @ bs) s = (case run as s of None \<Rightarrow> None | Some s' \<Rightarrow> run bs s')"
  by (induction as arbitrary: s) (auto split: option.splits)

lemma run_invariant:
  assumes "\<And>a s s'. P s \<Longrightarrow> step a s = Some s' \<Longrightarrow> P s'"
  shows "P s \<Longrightarrow> run as s = Some s' \<Longrightarrow> P s'"
proof (induction as arbitrary: s)
  case Nil
  then show ?case by simp
next
  case (Cons a as)
  then show ?case using assms by (auto split: option.splits)
qed

lemma fprintf_stat_no_nil: "None \<notin> set sink \<Longrightarrow> None \<notin> set (fprintf_stat sink stat)"
  by (cases stat) (auto simp: fprintf_stat_def)

lemma step_out_no_nil: "None \<notin> set (out s) \<Longrightarrow> step a s = Some s' \<Longrightarrow> None \<notin> set (out s')"
  by (cases a) (auto simp: fprintf_stat_no_nil split: if_splits source.splits list.splits fwd.splits)

lemma step_ctxDone_mono: "step a s = Some s' \<Longrightarrow> ctxDone s \<Longrightarrow> ctxDone s'"
  by (cases a) (auto split: if_splits source.splits list.splits fwd.splits)

lemma step_length_tasks: "step a s = Some s' \<Longrightarrow> length (tasks s') = length (tasks s)"
  by (cases a) (auto split: if_splits source.splits list.splits fwd.splits)

lemma step_cont_ids: "step a s = Some s' \<Longrightarrow> map cont_id (tasks s') = map cont_id (tasks s)"
  by (cases a)
    (auto simp: map_update list_update_same_conv split: if_splits source.splits list.splits fwd.splits)

lemma step_returned:
  "merger s = Returned \<Longrightarrow> step a s = Some s' \<Longrightarrow> merger s' = Returned \<and> out s' = out s"
  by (cases a) (auto split: if_splits source.splits list.splits fwd.splits)

lemma run_returned:
  "merger s = Returned \<Longrightarrow> run as s = Some s' \<Longrightarrow> merger s' = Returned \<and> out s' = out s"
proof (induction as arbitrary: s)
  case Nil
  then show ?case by simp
next
  case (Cons a as)
  then obtain s1 where 1: "step a s = Some s1" and 2: "run as s1 = Some s'"
    by (auto split: option.splits)
  from step_returned[OF Cons.prems(1) 1] Cons.IH[OF _ 2] show ?case by simp
qed

lemma step_stuck_sender:
  assumes "merger s = Returned" "i < length (tasks s)" "pc (tasks s ! i) = Sending x"
    and "step a s = Some s'"
  shows "pc (tasks s' ! i) = Sending x"
  using assms
  by (cases a) (auto simp: nth_list_update split: if_splits source.splits list.splits fwd.splits)

lemma run_stuck_sender:
  assumes "merger s = Returned" "i < length (tasks s)" "pc (tasks s ! i) = Sending x"
    and "run as s = Some s'"
  shows "pc (tasks s' ! i) = Sending x \<and> merger s' = Returned
         \<and> length (tasks s') = length (tasks s)"
  using assms
proof (induction as arbitrary: s)
  case Nil
  then show ?case by simp
next
  case (Cons a as)
  then obtain s1 where 1: "step a s = Some s1" and 2: "run as s1 = Some s'"
    by (auto split: option.splits)
  have "merger s1 = Returned" using step_returned[OF Cons.prems(1) 1] by simp
  moreover have "i < length (tasks s1)" using step_length_tasks[OF 1] Cons.prems(2) by simp
  moreover have "pc (tasks s1 ! i) = Sending x"
    using step_stuck_sender[OF Cons.prems(1-3) 1] .
  ultimately show ?case using Cons.IH[OF _ _ _ 2] step_length_tasks[OF 1] by simp
qed

lemma forwarder_actions_blocked:
  assumes "merger s = Returned" "i < length (tasks s)" "pc (tasks s ! i) = Sending x"
  shows "step (FwdStart i) s = None \<and> step (FwdDone i) s = None \<and> step (FwdRecv i) s = None
         \<and> step (Handoff i) s = None"
  using assms by simp

definition in_flight :: "'a forwarder list \<Rightarrow> 'a option multiset" where
  "in_flight ts = sum_list (map (\<lambda>t. mset (nonnil (backlog t))) ts)"

lemma sum_list_map_update:
  fixes f :: "'b \<Rightarrow> 'c::comm_monoid_add"
  shows "i < length ts \<Longrightarrow> sum_list (map f (ts[i := t])) + f (ts ! i) = sum_list (map f ts) + f t"
proof (induction ts arbitrary: i)
  case Nil
  then show ?case by simp
next
  case (Cons u ts)
  show ?case
  proof (cases i)
    case 0
    then show ?thesis by (simp add: ac_simps)
  next
    case (Suc j)
    with Cons.prems have "j < length ts" by simp
    from Cons.IH[OF this] Suc show ?thesis by (simp add: ac_simps)
  qed
qed

lemma in_flight_update:
  "i < length ts \<Longrightarrow>
   in_flight (ts[i := t]) + mset (nonnil (backlog (ts ! i))) = in_flight ts + mset (nonnil (backlog t))"
  unfolding in_flight_def by (rule sum_list_map_update)

lemma in_flight_same:
  "i < length ts \<Longrightarrow> nonnil (backlog t) = nonnil (backlog (ts ! i)) \<Longrightarrow> in_flight (ts[i := t]) = in_flight ts"
  using in_flight_update[of i ts t] by simp

lemma in_flight_drop:
  "i < length ts \<Longrightarrow> in_flight (ts[i := t]) \<subseteq># in_flight ts + mset (nonnil (backlog t))"
  using in_flight_update[of i ts t] by (metis mset_subset_eq_add_left)

lemma fprintf_stat_mset: "mset (fprintf_stat sink x) = mset sink + mset (nonnil [x])"
  by (cases x) (simp_all add: fprintf_stat_def nonnil_def)

lemma step_conserve:
  assumes "step a s = Some s'" "\<not> ctxDone s'"
  shows "mset (out s') + in_flight (tasks s') = mset (out s) + in_flight (tasks s)"
proof (cases a)
  case Cancel
  with assms show ?thesis by auto
next
  case (StreamEnd i)
  with assms show ?thesis
    by (auto simp: backlog_def intro!: in_flight_same split: if_splits source.splits)
next
  case (FwdStart i)
  with assms show ?thesis
    by (auto simp: backlog_def intro!: in_flight_same split: if_splits)
next
  case (FwdDone i)
  with assms show ?thesis
    by (auto simp: backlog_def intro!: in_flight_same split: if_splits)
next
  case (FwdRecv i)
  with assms show ?thesis
    by (auto simp: backlog_def intro!: in_flight_same split: if_splits source.splits list.splits)
next
  case (Handoff i)
  with assms obtain x where i: "i < length (tasks s)" and x: "pc (tasks s ! i) = Sending x"
    and s': "s' = s\<lparr>tasks := (tasks s)[i := (tasks s ! i)\<lparr>pc := Selecting\<rparr>], out := fprintf_stat (out s) x\<rparr>"
    by (auto split: if_splits fwd.splits)
  have "nonnil (backlog (tasks s ! i)) = nonnil [x] @ nonnil (backlog ((tasks s ! i)\<lparr>pc := Selecting\<rparr>))"
    using x by (simp add: backlog_def nonnil_def)
  with in_flight_update[OF i, of "(tasks s ! i)\<lparr>pc := Selecting\<rparr>"]
  have "in_flight ((tasks s)[i := (tasks s ! i)\<lparr>pc := Selecting\<rparr>]) + mset (nonnil [x]) = in_flight (tasks s)"
    by simp
  then show ?thesis by (simp add: s' fprintf_stat_mset ac_simps)
next
  case MergeDone
  with assms show ?thesis by (auto split: if_splits)
qed

lemma in_flight_shrink:
  assumes "i < length ts" "mset (nonnil (backlog t)) \<subseteq># mset (nonnil (backlog (ts ! i)))"
  shows "in_flight (ts[i := t]) \<subseteq># in_flight ts"
proof -
  from assms(2) obtain c where c: "mset (nonnil (backlog (ts ! i))) = mset (nonnil (backlog t)) + c"
    by (auto simp: mset_subset_eq_exists_conv)
  from in_flight_update[OF assms(1), of t] c
  have "(in_flight (ts[i := t]) + c) + mset (nonnil (backlog t)) = in_flight ts + mset (nonnil (backlog t))"
    by (simp add: ac_simps)
  then have "in_flight (ts[i := t]) + c = in_flight ts" by simp
  then show ?thesis by (metis mset_subset_eq_add_left)
qed

lemma step_no_gain:
  assumes "step a s = Some s'"
  shows "mset (out s') + in_flight (tasks s') \<subseteq># mset (out s) + in_flight (tasks s)"
proof (cases "ctxDone s'")
  case False
  with step_conserve[OF assms] show ?thesis by simp
next
  case True
  show ?thesis
  proof (cases a)
    case (StreamEnd i)
    with assms obtain xs where i: "i < length (tasks s)"
      and s': "s' = s\<lparr>tasks := (tasks s)[i := (tasks s ! i)\<lparr>contStats := Closed\<rparr>]\<rparr>"
      and xs: "contStats (tasks s ! i) = Streaming xs"
      by (auto split: if_splits source.splits)
    have "mset (nonnil (backlog ((tasks s ! i)\<lparr>contStats := Closed\<rparr>))) \<subseteq># mset (nonnil (backlog (tasks s ! i)))"
      using xs by (simp add: backlog_def nonnil_def)
    then have "in_flight ((tasks s)[i := (tasks s ! i)\<lparr>contStats := Closed\<rparr>]) \<subseteq># in_flight (tasks s)"
      by (rule in_flight_shrink[OF i])
    then show ?thesis by (simp add: s')
  next
    case Cancel
    with assms show ?thesis by auto
  next
    case (FwdStart i)
    with assms show ?thesis
      by (auto simp: backlog_def in_flight_same split: if_splits)
  next
    case (FwdDone i)
    with assms show ?thesis
      by (auto simp: backlog_def in_flight_same split: if_splits)
  next
    case (FwdRecv i)
    with assms show ?thesis
      by (auto simp: backlog_def in_flight_same split: if_splits source.splits list.splits)
  next
    case (Handoff i)
    with assms obtain x where i: "i < length (tasks s)" and x: "pc (tasks s ! i) = Sending x"
      and s': "s' = s\<lparr>tasks := (tasks s)[i := (tasks s ! i)\<lparr>pc := Selecting\<rparr>], out := fprintf_stat (out s) x\<rparr>"
      by (auto split: if_splits fwd.splits)
    have "nonnil (backlog (tasks s ! i)) = nonnil [x] @ nonnil (backlog ((tasks s ! i)\<lparr>pc := Selecting\<rparr>))"
      using x by (simp add: backlog_def nonnil_def)
    with in_flight_update[OF i, of "(tasks s ! i)\<lparr>pc := Selecting\<rparr>"]
    have "in_flight ((tasks s)[i := (tasks s ! i)\<lparr>pc := Selecting\<rparr>]) + mset (nonnil [x]) = in_flight (tasks s)"
      by simp
    then show ?thesis by (simp add: s' fprintf_stat_mset ac_simps)
  next
    case MergeDone
    with assms show ?thesis by (auto split: if_splits)
  qed
qed

lemma in_flight_init:
  "in_flight (map (\<lambda>c. \<lparr>cont_id = c, contStats = Streaming (daemon c), pc = Spawned\<rparr>) ids)
   = mset (nonnil (concat (map daemon ids)))"
  by (induction ids) (simp_all add: in_flight_def backlog_def nonnil_def)

text \<open>Run-level consequences.\<close>

lemma run_ctxDone_back: "run as s = Some s' \<Longrightarrow> \<not> ctxDone s' \<Longrightarrow> \<not> ctxDone s"
proof (induction as arbitrary: s)
  case Nil
  then show ?case by simp
next
  case (Cons a as)
  then obtain s1 where 1: "step a s = Some s1" and 2: "run as s1 = Some s'"
    by (auto split: option.splits)
  from Cons.IH[OF 2 Cons.prems(2)] step_ctxDone_mono[OF 1] show ?case by blast
qed

lemma run_conserve:
  "run as s = Some s' \<Longrightarrow> \<not> ctxDone s' \<Longrightarrow>
   mset (out s') + in_flight (tasks s') = mset (out s) + in_flight (tasks s)"
proof (induction as arbitrary: s)
  case Nil
  then show ?case by simp
next
  case (Cons a as)
  then obtain s1 where 1: "step a s = Some s1" and 2: "run as s1 = Some s'"
    by (auto split: option.splits)
  have "\<not> ctxDone s1" using run_ctxDone_back[OF 2 Cons.prems(2)] .
  from step_conserve[OF 1 this] Cons.IH[OF 2 Cons.prems(2)] show ?case by simp
qed

lemma run_no_gain:
  "run as s = Some s' \<Longrightarrow> mset (out s') + in_flight (tasks s') \<subseteq># mset (out s) + in_flight (tasks s)"
proof (induction as arbitrary: s)
  case Nil
  then show ?case by simp
next
  case (Cons a as)
  then obtain s1 where 1: "step a s = Some s1" and 2: "run as s1 = Some s'"
    by (auto split: option.splits)
  from step_no_gain[OF 1] Cons.IH[OF 2] show ?case by (rule subset_mset.order_trans[rotated])
qed

text \<open>
  A collector is at rest when every forwarding goroutine has returned and every
  \<^verbatim>\<open>client.Stats\<close> call has closed its channel.
\<close>

definition at_rest :: "'a collector \<Rightarrow> bool" where
  "at_rest s = list_all (\<lambda>t. pc t = Exited \<and> contStats t = Closed) (tasks s)"

lemma list_all_update: "list_all P xs \<Longrightarrow> P y \<Longrightarrow> list_all P (xs[i := y])"
  by (induction xs arbitrary: i) (auto split: nat.splits)

lemma list_all_nth: "list_all P xs \<Longrightarrow> i < length xs \<Longrightarrow> P (xs ! i)"
  by (simp add: list_all_length)

lemma in_flight_none:
  "list_all (\<lambda>t. pc t = Exited \<and> contStats t = Closed) ts \<Longrightarrow> in_flight ts = {#}"
  by (induction ts) (auto simp: in_flight_def backlog_def nonnil_def)

lemma at_rest_in_flight: "at_rest s \<Longrightarrow> in_flight (tasks s) = {#}"
  unfolding at_rest_def by (rule in_flight_none)

text \<open>Invariants of the configurations reached before cancellation.\<close>

definition precancel_ok :: "'a collector \<Rightarrow> bool" where
  "precancel_ok s = (ctxDone s \<or> (merger s = Merging \<and> list_all (\<lambda>t. pc t \<noteq> Exited \<or> contStats t = Closed) (tasks s)))"

lemma step_precancel_ok: "precancel_ok s \<Longrightarrow> step a s = Some s' \<Longrightarrow> precancel_ok s'"
  unfolding precancel_ok_def
  by (cases a)
    (auto intro!: list_all_update dest: list_all_nth split: if_splits source.splits list.splits fwd.splits)

lemma init_precancel_ok: "precancel_ok (logStatsForContainers daemon ids)"
  by (simp add: precancel_ok_def logStatsForContainers_def list_all_iff)

lemma run_precancel_ok: "precancel_ok s \<Longrightarrow> run as s = Some s' \<Longrightarrow> precancel_ok s'"
  by (rule run_invariant[where P = precancel_ok, OF step_precancel_ok])

text \<open>Progress: while the context is live, a collector that is not at rest can take a step.\<close>

definition next_action :: "nat \<Rightarrow> 'a forwarder \<Rightarrow> action option" where
  "next_action i t =
     (case pc t of
        Spawned \<Rightarrow> Some (FwdStart i)
      | Sending x \<Rightarrow> Some (Handoff i)
      | Selecting \<Rightarrow> (case contStats t of Streaming [] \<Rightarrow> Some (StreamEnd i) | _ \<Rightarrow> Some (FwdRecv i))
      | Exited \<Rightarrow> (case contStats t of Streaming [] \<Rightarrow> Some (StreamEnd i) | _ \<Rightarrow> None))"

lemma next_action_enabled:
  assumes "i < length (tasks s)" "merger s = Merging" "next_action i (tasks s ! i) = Some a"
  shows "a \<noteq> Cancel \<and> step a s \<noteq> None"
  using assms
  by (auto simp: next_action_def split: fwd.splits source.splits list.splits)

lemma quiescent_at_rest:
  assumes ok: "precancel_ok s" and live: "\<not> ctxDone s"
    and q: "\<forall>a. a \<noteq> Cancel \<longrightarrow> step a s = None"
  shows "at_rest s"
proof -
  from ok live have m: "merger s = Merging"
    and ex: "\<forall>i<length (tasks s). pc (tasks s ! i) \<noteq> Exited \<or> contStats (tasks s ! i) = Closed"
    by (auto simp: precancel_ok_def list_all_length)
  have "pc (tasks s ! i) = Exited \<and> contStats (tasks s ! i) = Closed" if i: "i < length (tasks s)" for i
  proof -
    have none: "next_action i (tasks s ! i) = None"
    proof (cases "next_action i (tasks s ! i)")
      case (Some a)
      from next_action_enabled[OF i m Some] have "a \<noteq> Cancel" "step a s \<noteq> None" by simp_all
      with q show ?thesis by simp
    qed simp
    from ex i have exi: "pc (tasks s ! i) \<noteq> Exited \<or> contStats (tasks s ! i) = Closed" by simp
    from none have "pc (tasks s ! i) = Exited"
      by (cases "pc (tasks s ! i)") (simp_all add: next_action_def split: source.splits list.splits)
    with exi show ?thesis by simp
  qed
  then show ?thesis by (simp add: at_rest_def list_all_length)
qed

lemma at_rest_quiescent:
  assumes "at_rest s" "\<not> ctxDone s" "a \<noteq> Cancel"
  shows "step a s = None"
  using assms unfolding at_rest_def
  by (cases a) (auto dest: list_all_nth split: if_splits source.splits list.splits fwd.splits)

lemma at_rest_step_out: "at_rest s \<Longrightarrow> step a s = Some s' \<Longrightarrow> at_rest s' \<and> out s' = out s"
  unfolding at_rest_def
  by (cases a) (auto dest: list_all_nth split: if_splits source.splits list.splits fwd.splits)

lemma at_rest_run_out: "at_rest s \<Longrightarrow> run as s = Some s' \<Longrightarrow> at_rest s' \<and> out s' = out s"
proof (induction as arbitrary: s)
  case Nil
  then show ?case by simp
next
  case (Cons a as)
  then obtain s1 where 1: "step a s = Some s1" and 2: "run as s1 = Some s'"
    by (auto split: option.splits)
  from at_rest_step_out[OF Cons.prems(1) 1] Cons.IH[OF _ 2] show ?case by simp
qed

text \<open>
  A bound on the steps a collector can still take: every action other than \<open>Cancel\<close>
  uses up at least one unit.
\<close>

fun fwd_weight :: "'a fwd \<Rightarrow> nat" where
  "fwd_weight Spawned = 2"
| "fwd_weight Selecting = 1"
| "fwd_weight (Sending x) = 2"
| "fwd_weight Exited = 0"

fun source_weight :: "'a source \<Rightarrow> nat" where
  "source_weight (Streaming xs) = 2 * length xs + 1"
| "source_weight Closed = 0"

definition task_weight :: "'a forwarder \<Rightarrow> nat" where
  "task_weight t = fwd_weight (pc t) + source_weight (contStats t)"

definition steps_left :: "'a collector \<Rightarrow> nat" where
  "steps_left s = (if merger s = Merging then 1 else 0) + sum_list (map task_weight (tasks s))"

lemma weight_update:
  "i < length ts \<Longrightarrow>
   sum_list (map task_weight (ts[i := t])) + task_weight (ts ! i) = sum_list (map task_weight ts) + task_weight t"
  by (rule sum_list_map_update)

lemma weight_decrease:
  assumes "i < length ts" "task_weight t < task_weight (ts ! i)"
  shows "sum_list (map task_weight (ts[i := t])) < sum_list (map task_weight ts)"
  using weight_update[OF assms(1), of t] assms(2) by linarith

lemma step_steps_left:
  assumes "step a s = Some s'" "a \<noteq> Cancel"
  shows "steps_left s' < steps_left s"
proof (cases a)
  case Cancel
  with assms show ?thesis by simp
next
  case (StreamEnd i)
  with assms show ?thesis
    by (auto simp: steps_left_def task_weight_def intro!: weight_decrease split: if_splits source.splits)
next
  case (FwdStart i)
  with assms show ?thesis
    by (auto simp: steps_left_def task_weight_def intro!: weight_decrease split: if_splits)
next
  case (FwdDone i)
  with assms show ?thesis
    by (auto simp: steps_left_def task_weight_def intro!: weight_decrease split: if_splits)
next
  case (FwdRecv i)
  with assms show ?thesis
    by (auto simp: steps_left_def task_weight_def intro!: weight_decrease
        split: if_splits source.splits list.splits)
next
  case (Handoff i)
  with assms show ?thesis
    by (auto simp: steps_left_def task_weight_def intro!: weight_decrease split: if_splits fwd.splits)
next
  case MergeDone
  with assms show ?thesis by (auto simp: steps_left_def split: if_splits)
qed

lemma step_Cancel_steps_left: "step Cancel s = Some s' \<Longrightarrow> steps_left s' = steps_left s"
  by (auto simp: steps_left_def)

lemma run_steps_left:
  "run as s = Some s' \<Longrightarrow> length (filter (\<lambda>a. a \<noteq> Cancel) as) + steps_left s' \<le> steps_left s"
proof (induction as arbitrary: s)
  case Nil
  then show ?case by simp
next
  case (Cons a as)
  then obtain s1 where 1: "step a s = Some s1" and 2: "run as s1 = Some s'"
    by (auto split: option.splits)
  show ?case
  proof (cases "a = Cancel")
    case True
    with 1 step_Cancel_steps_left have "steps_left s1 = steps_left s" by blast
    with Cons.IH[OF 2] True show ?thesis by simp
  next
    case False
    from step_steps_left[OF 1 False] Cons.IH[OF 2] False show ?thesis by simp
  qed
qed

lemma steps_left_init:
  "steps_left (logStatsForContainers daemon ids) = 1 + sum_list (map (\<lambda>c. 2 * length (daemon c) + 3) ids)"
  by (induction ids) (simp_all add: steps_left_def logStatsForContainers_def task_weight_def)

text \<open>
  The schedule that lets forwarder \<open>j\<close> receive and hand over its next \<open>n\<close> values.
\<close>

definition deliver :: "nat \<Rightarrow> nat \<Rightarrow> action list" where
  "deliver j n = concat (replicate n [FwdRecv j, Handoff j])"

lemma fprintf_stat_nonnil: "fprintf_stat sink x = sink @ nonnil [x]"
  by (cases x) (simp_all add: fprintf_stat_def nonnil_def)

lemma nonnil_Cons: "nonnil (x # xs) = nonnil [x] @ nonnil xs"
  by (simp add: nonnil_def)

lemma deliver_run:
  assumes "j < length (tasks s)" "pc (tasks s ! j) = Selecting"
    "contStats (tasks s ! j) = Streaming (xs @ ys)" "merger s = Merging"
  shows "\<exists>s'. run (deliver j (length xs)) s = Some s' \<and> out s' = out s @ nonnil xs
           \<and> pc (tasks s' ! j) = Selecting \<and> contStats (tasks s' ! j) = Streaming ys
           \<and> merger s' = Merging \<and> ctxDone s' = ctxDone s \<and> length (tasks s') = length (tasks s)
           \<and> (\<forall>k. k \<noteq> j \<longrightarrow> tasks s' ! k = tasks s ! k)"
  using assms
proof (induction xs arbitrary: s)
  case Nil
  then show ?case by (simp add: deliver_def nonnil_def)
next
  case (Cons x xs)
  let ?t = "tasks s ! j"
  let ?s1 = "s\<lparr>tasks := (tasks s)[j := ?t\<lparr>contStats := Streaming (xs @ ys), pc := Sending x\<rparr>],
                logs := logs s @ [Received (cont_id ?t)]\<rparr>"
  let ?s2 = "?s1\<lparr>tasks := (tasks ?s1)[j := (tasks ?s1 ! j)\<lparr>pc := Selecting\<rparr>],
                  out := fprintf_stat (out ?s1) x\<rparr>"
  have 1: "step (FwdRecv j) s = Some ?s1" using Cons.prems by simp
  have 2: "step (Handoff j) ?s1 = Some ?s2" using Cons.prems by simp
  have "\<exists>s'. run (deliver j (length xs)) ?s2 = Some s' \<and> out s' = out ?s2 @ nonnil xs
           \<and> pc (tasks s' ! j) = Selecting \<and> contStats (tasks s' ! j) = Streaming ys
           \<and> merger s' = Merging \<and> ctxDone s' = ctxDone ?s2 \<and> length (tasks s') = length (tasks ?s2)
           \<and> (\<forall>k. k \<noteq> j \<longrightarrow> tasks s' ! k = tasks ?s2 ! k)"
    by (rule Cons.IH) (use Cons.prems in simp_all)
  then obtain s' where s': "run (deliver j (length xs)) ?s2 = Some s'" "out s' = out ?s2 @ nonnil xs"
    "pc (tasks s' ! j) = Selecting" "contStats (tasks s' ! j) = Streaming ys"
    "merger s' = Merging" "ctxDone s' = ctxDone ?s2" "length (tasks s') = length (tasks ?s2)"
    "\<forall>k. k \<noteq> j \<longrightarrow> tasks s' ! k = tasks ?s2 ! k"
    by blast
  have "run (deliver j (length (x # xs))) s = run (deliver j (length xs)) ?s2"
    using 1 2 by (simp add: deliver_def)
  moreover have "out ?s2 @ nonnil xs = out s @ nonnil (x # xs)"
    by (simp add: fprintf_stat_nonnil nonnil_Cons[of x xs])
  ultimately show ?case using s' by simp
qed

text \<open>
  Attribution. The written record itself carries no container identifier; a snapshot
  belongs to the container on whose \<^verbatim>\<open>contStats\<close> channel it arrived, which is the
  identifier in the forwarder's line \<^verbatim>\<open>Received stat for container ...\<close>. To follow
  the records of one container through the shared sink, \<open>lbl\<close> names the container a
  snapshot value comes from.
\<close>

definition written_of :: "('a \<Rightarrow> string) \<Rightarrow> string \<Rightarrow> 'a option list \<Rightarrow> 'a option list" where
  "written_of lbl c sink = filter (\<lambda>x. map_option lbl x = Some c) sink"

text \<open>
  What the forwarder of container \<open>c\<close> has received so far: as many values of the
  container's stream as it has printed \<open>Received c\<close> lines.
\<close>

definition received_from :: "(string \<Rightarrow> 'a option list) \<Rightarrow> 'a collector \<Rightarrow> string \<Rightarrow> 'a option list" where
  "received_from daemon s c = take (count_list (logs s) (Received c)) (daemon c)"

definition labelled :: "(string \<Rightarrow> 'a option list) \<Rightarrow> ('a \<Rightarrow> string) \<Rightarrow> string list \<Rightarrow> bool" where
  "labelled daemon lbl ids = list_all (\<lambda>c. list_all (\<lambda>x. x = None \<or> map_option lbl x = Some c) (daemon c)) ids"

definition task_inv :: "(string \<Rightarrow> 'a option list) \<Rightarrow> ('a \<Rightarrow> string) \<Rightarrow> 'a collector \<Rightarrow> nat \<Rightarrow> bool" where
  "task_inv daemon lbl s i =
     ((case contStats (tasks s ! i) of
         Streaming xs \<Rightarrow> xs = drop (count_list (logs s) (Received (cont_id (tasks s ! i)))) (daemon (cont_id (tasks s ! i)))
       | Closed \<Rightarrow> True)
      \<and> nonnil (received_from daemon s (cont_id (tasks s ! i)))
          = written_of lbl (cont_id (tasks s ! i)) (out s) @ nonnil (held (pc (tasks s ! i))))"

lemma labelled_lbl:
  assumes "labelled daemon lbl ids" "c \<in> set ids" "Some v \<in> set (daemon c)"
  shows "lbl v = c"
  using assms by (auto simp: labelled_def list_all_iff)

lemma written_of_append: "written_of lbl c (xs @ ys) = written_of lbl c xs @ written_of lbl c ys"
  by (simp add: written_of_def)

lemma written_of_fprintf_other:
  assumes "x = None \<or> map_option lbl x \<noteq> Some c"
  shows "written_of lbl c (fprintf_stat sink x) = written_of lbl c sink"
  using assms by (cases x) (auto simp: fprintf_stat_def written_of_def)

lemma written_of_fprintf_own:
  assumes "x = None \<or> map_option lbl x = Some c"
  shows "written_of lbl c (fprintf_stat sink x) = written_of lbl c sink @ nonnil [x]"
  using assms by (cases x) (auto simp: fprintf_stat_def written_of_def nonnil_def)

lemma nonnil_Nil [simp]: "nonnil [] = []"
  by (simp add: nonnil_def)

lemma nonnil_append: "nonnil (xs @ ys) = nonnil xs @ nonnil ys"
  by (simp add: nonnil_def)

lemma set_nonnil: "set (nonnil xs) = set xs - {None}"
  by (auto simp: nonnil_def)

lemma distinct_ids_neq:
  assumes "distinct (map cont_id ts)" "i < length ts" "j < length ts" "i \<noteq> j"
  shows "cont_id (ts ! i) \<noteq> cont_id (ts ! j)"
  using assms by (metis length_map nth_eq_iff_index_eq nth_map)

lemma held_label:
  assumes inv: "task_inv daemon lbl s i" and lab: "labelled daemon lbl ids"
    and c: "cont_id (tasks s ! i) \<in> set ids" and x: "pc (tasks s ! i) = Sending x"
  shows "x = None \<or> map_option lbl x = Some (cont_id (tasks s ! i))"
proof (cases x)
  case None
  then show ?thesis by simp
next
  case (Some v)
  from inv x Some have "Some v \<in> set (nonnil (received_from daemon s (cont_id (tasks s ! i))))"
    by (simp add: task_inv_def nonnil_def)
  then have "Some v \<in> set (daemon (cont_id (tasks s ! i)))"
    by (auto simp: set_nonnil received_from_def dest: in_set_takeD)
  from labelled_lbl[OF lab c this] Some show ?thesis by simp
qed

lemma step_task_inv:
  assumes st: "step a s = Some s'"
    and dist: "distinct (map cont_id (tasks s))"
    and lab: "labelled daemon lbl (map cont_id (tasks s))"
    and inv: "\<forall>i<length (tasks s). task_inv daemon lbl s i"
    and j: "j < length (tasks s)"
  shows "task_inv daemon lbl s' j"
proof -
  from inv j have invj: "task_inv daemon lbl s j" by simp
  show ?thesis
  proof (cases a)
    case Cancel
    with st invj show ?thesis by (auto simp: task_inv_def received_from_def split: source.splits)
  next
    case MergeDone
    with st invj show ?thesis by (auto simp: task_inv_def received_from_def split: if_splits source.splits)
  next
    case (StreamEnd i)
    with st invj show ?thesis
      by (cases "i = j") (auto simp: task_inv_def received_from_def split: if_splits source.splits)
  next
    case (FwdStart i)
    with st invj show ?thesis
      by (cases "i = j") (auto simp: task_inv_def received_from_def split: if_splits source.splits)
  next
    case (FwdDone i)
    with st invj show ?thesis
      by (cases "i = j") (auto simp: task_inv_def received_from_def split: if_splits source.splits)
  next
    case (FwdRecv i)
    show ?thesis
    proof (cases "contStats (tasks s ! i)")
      case Closed
      with FwdRecv st invj show ?thesis
        by (cases "i = j") (auto simp: task_inv_def received_from_def split: if_splits source.splits)
    next
      case (Streaming zs)
      with FwdRecv st obtain x xs where i: "i < length (tasks s)" and sel: "pc (tasks s ! i) = Selecting"
        and zs: "zs = x # xs"
        and s': "s' = s\<lparr>tasks := (tasks s)[i := (tasks s ! i)\<lparr>contStats := Streaming xs, pc := Sending x\<rparr>],
                     logs := logs s @ [Received (cont_id (tasks s ! i))]\<rparr>"
        by (auto split: if_splits list.splits)
      show ?thesis
      proof (cases "i = j")
        case False
        with distinct_ids_neq[OF dist i j] have "cont_id (tasks s ! i) \<noteq> cont_id (tasks s ! j)" by simp
        with False invj show ?thesis by (simp add: s' task_inv_def received_from_def split: source.splits)
      next
        case True
        let ?c = "cont_id (tasks s ! j)"
        let ?k = "count_list (logs s) (Received ?c)"
        from invj Streaming zs True have d: "drop ?k (daemon ?c) = x # xs"
          by (simp add: task_inv_def)
        then have k: "?k < length (daemon ?c)" by (metis drop_all list.distinct(1) not_le)
        have x: "daemon ?c ! ?k = x" and xs: "drop (Suc ?k) (daemon ?c) = xs"
          using d k by (simp_all add: Cons_nth_drop_Suc[symmetric])
        have t: "take (Suc ?k) (daemon ?c) = take ?k (daemon ?c) @ [x]"
          using k x by (simp add: take_Suc_conv_app_nth)
        from invj sel True have w: "nonnil (take ?k (daemon ?c)) = written_of lbl ?c (out s)"
          by (simp add: task_inv_def received_from_def nonnil_def)
        show ?thesis
          using True j by (simp add: s' task_inv_def received_from_def xs t nonnil_append w)
      qed
    qed
  next
    case (Handoff i)
    with st obtain x where i: "i < length (tasks s)" and x: "pc (tasks s ! i) = Sending x"
      and s': "s' = s\<lparr>tasks := (tasks s)[i := (tasks s ! i)\<lparr>pc := Selecting\<rparr>], out := fprintf_stat (out s) x\<rparr>"
      by (auto split: if_splits fwd.splits)
    from inv i have invi: "task_inv daemon lbl s i" by simp
    have ci: "cont_id (tasks s ! i) \<in> set (map cont_id (tasks s))" using i by simp
    note own = held_label[OF invi lab ci x]
    show ?thesis
    proof (cases "i = j")
      case True
      with invj x written_of_fprintf_own[OF own] j show ?thesis
        by (simp add: s' task_inv_def received_from_def split: source.splits)
    next
      case False
      with distinct_ids_neq[OF dist i j] have "cont_id (tasks s ! i) \<noteq> cont_id (tasks s ! j)" by simp
      with own have "x = None \<or> map_option lbl x \<noteq> Some (cont_id (tasks s ! j))" by auto
      from written_of_fprintf_other[OF this] False invj show ?thesis
        by (simp add: s' task_inv_def received_from_def split: source.splits)
    qed
  qed
qed

lemma run_task_inv:
  assumes "run as s = Some s'"
    and "distinct (map cont_id (tasks s))"
    and "labelled daemon lbl (map cont_id (tasks s))"
    and "\<forall>i<length (tasks s). task_inv daemon lbl s i"
  shows "\<forall>i<length (tasks s'). task_inv daemon lbl s' i"
  using assms
proof (induction as arbitrary: s)
  case Nil
  then show ?case by simp
next
  case (Cons a as)
  then obtain s1 where 1: "step a s = Some s1" and 2: "run as s1 = Some s'"
    by (auto split: option.splits)
  have ids: "map cont_id (tasks s1) = map cont_id (tasks s)" by (rule step_cont_ids[OF 1])
  have "\<forall>i<length (tasks s1). task_inv daemon lbl s1 i"
    using step_task_inv[OF 1 Cons.prems(2,3,4)] step_length_tasks[OF 1] by simp
  with Cons.IH[OF 2] ids Cons.prems(2,3) show ?case by simp
qed

lemma init_task_inv:
  "\<forall>i<length (tasks (logStatsForContainers daemon ids)). task_inv daemon lbl (logStatsForContainers daemon ids) i"
  by (simp add: logStatsForContainers_def task_inv_def received_from_def written_of_def nonnil_def)

lemma run_cont_ids: "run as s = Some s' \<Longrightarrow> map cont_id (tasks s') = map cont_id (tasks s)"
proof (induction as arbitrary: s)
  case Nil
  then show ?case by simp
next
  case (Cons a as)
  then obtain s1 where 1: "step a s = Some s1" and 2: "run as s1 = Some s'"
    by (auto split: option.splits)
  from step_cont_ids[OF 1] Cons.IH[OF 2] show ?case by simp
qed

section \<open>C10: a forwarder blocked on the shared channel never returns\<close>

text \<open>
  C10. Once the merge loop has returned (it only returns after the cancellation signal
  has fired), a forwarding goroutine that is blocked in \<^verbatim>\<open>statsChan <- stat\<close> stays
  blocked in every continuation of the run, whatever the other goroutines and the
  client library do: the send is a plain statement, not a branch of a \<^verbatim>\<open>select\<close>
  with \<^verbatim>\<open>ctx.Done()\<close>, and nothing receives from \<^verbatim>\<open>statsChan\<close> any more. None of the
  forwarder's own actions can proceed, also after its \<^verbatim>\<open>client.Stats\<close> call has
  honoured the cancellation and closed the stream.
\<close>

theorem blocked_forwarder_never_returns:
  assumes "merger s = Returned" and "i < length (tasks s)" and "pc (tasks s ! i) = Sending x"
    and "run as s = Some s'"
  shows "pc (tasks s' ! i) = Sending x \<and> step (FwdDone i) s' = None
         \<and> step (FwdRecv i) s' = None \<and> step (Handoff i) s' = None"
proof -
  from run_stuck_sender[OF assms]
  have 1: "pc (tasks s' ! i) = Sending x" and 2: "merger s' = Returned" and 3: "i < length (tasks s')"
    using assms(2) by simp_all
  from forwarder_actions_blocked[OF 2 3 1] 1 show ?thesis by simp
qed

text \<open>
  The premises hold in a configuration the collector reaches: one container whose
  stream delivers one snapshot, the forwarder receives it, the signal fires and the
  merge loop takes its \<^verbatim>\<open>ctx.Done()\<close> branch. The stream then closes, and the
  forwarder still cannot move.
\<close>

theorem blocked_forwarder_never_returns_witness:
  "run [FwdStart 0, FwdRecv 0, Cancel, MergeDone] (logStatsForContainers (\<lambda>c. [Some (7::nat)]) [''c1''])
     = Some \<lparr>ctxDone = True,
             tasks = [\<lparr>cont_id = ''c1'', contStats = Streaming [], pc = Sending (Some 7)\<rparr>],
             merger = Returned, out = [], logs = [Listening ''c1'', Received ''c1'']\<rparr>
   \<and> run [StreamEnd 0]
        \<lparr>ctxDone = True,
         tasks = [\<lparr>cont_id = ''c1'', contStats = Streaming [], pc = Sending (Some (7::nat))\<rparr>],
         merger = Returned, out = [], logs = [Listening ''c1'', Received ''c1'']\<rparr>
     = Some \<lparr>ctxDone = True,
             tasks = [\<lparr>cont_id = ''c1'', contStats = Closed, pc = Sending (Some 7)\<rparr>],
             merger = Returned, out = [], logs = [Listening ''c1'', Received ''c1'']\<rparr>
   \<and> step (FwdDone 0)
        \<lparr>ctxDone = True,
         tasks = [\<lparr>cont_id = ''c1'', contStats = Closed, pc = Sending (Some (7::nat))\<rparr>],
         merger = Returned, out = [], logs = [Listening ''c1'', Received ''c1'']\<rparr> = None
   \<and> step (FwdRecv 0)
        \<lparr>ctxDone = True,
         tasks = [\<lparr>cont_id = ''c1'', contStats = Closed, pc = Sending (Some (7::nat))\<rparr>],
         merger = Returned, out = [], logs = [Listening ''c1'', Received ''c1'']\<rparr> = None
   \<and> step (Handoff 0)
        \<lparr>ctxDone = True,
         tasks = [\<lparr>cont_id = ''c1'', contStats = Closed, pc = Sending (Some (7::nat))\<rparr>],
         merger = Returned, out = [], logs = [Listening ''c1'', Received ''c1'']\<rparr> = None"
  using blocked_forwarder_never_returns
    [of "\<lparr>ctxDone = True,
         tasks = [\<lparr>cont_id = ''c1'', contStats = Streaming [], pc = Sending (Some (7::nat))\<rparr>],
         merger = Returned, out = [], logs = [Listening ''c1'', Received ''c1'']\<rparr>"
        0 "Some 7" "[StreamEnd 0]"
        "\<lparr>ctxDone = True,
         tasks = [\<lparr>cont_id = ''c1'', contStats = Closed, pc = Sending (Some (7::nat))\<rparr>],
         merger = Returned, out = [], logs = [Listening ''c1'', Received ''c1'']\<rparr>"]
  by (simp add: logStatsForContainers_def)

section \<open>C3: what the merge loop does once the signal has fired\<close>

lemma run_out_bound:
  assumes "run as s = Some s'"
  shows "length (out s') \<le> length (out s) + size (in_flight (tasks s))"
proof -
  from run_no_gain[OF assms] have "mset (out s') \<subseteq># mset (out s) + in_flight (tasks s)"
    by (metis mset_subset_eq_add_left subset_mset.order_trans)
  from size_mset_mono[OF this] show ?thesis by simp
qed

text \<open>
  C3, as the code has it. With the signal fired, the \<^verbatim>\<open>ctx.Done()\<close> branch of the merge
  loop can be taken in every configuration, whatever the forwarders are doing, and
  taking it changes nothing but the loop's program counter: nothing is drained, what
  the forwarders hold stays with them. From then on the sink never changes and no
  forwarder can hand a value over. The branch is not forced, though: \<^verbatim>\<open>select\<close> may
  still take \<^verbatim>\<open>case stat := <-statsChan\<close> while a forwarder offers a value, so the
  loop can write after the signal has fired, at most as many records as there are
  non-nil values held by the forwarders or still to come from the streams.
\<close>

theorem merge_returns_without_draining:
  assumes "ctxDone s" and "merger s = Merging"
  shows "step MergeDone s = Some (s\<lparr>merger := Returned\<rparr>)
         \<and> (\<forall>as s'. run as (s\<lparr>merger := Returned\<rparr>) = Some s'
               \<longrightarrow> out s' = out s \<and> merger s' = Returned \<and> (\<forall>i. step (Handoff i) s' = None))
         \<and> (\<forall>as s'. run as s = Some s'
               \<longrightarrow> length (out s') \<le> length (out s) + size (in_flight (tasks s)))"
proof (intro conjI allI impI)
  show "step MergeDone s = Some (s\<lparr>merger := Returned\<rparr>)" using assms by simp
next
  fix as s' assume r: "run as (s\<lparr>merger := Returned\<rparr>) = Some s'"
  have "merger (s\<lparr>merger := Returned\<rparr>) = Returned" by simp
  from run_returned[OF this r] show "out s' = out s" and m: "merger s' = Returned" by simp_all
  fix i show "step (Handoff i) s' = None" using m by simp
next
  fix as s' assume "run as s = Some s'"
  then show "length (out s') \<le> length (out s) + size (in_flight (tasks s))" by (rule run_out_bound)
qed

text \<open>
  The signal has fired, a forwarder holds snapshot \<open>1\<close>, another snapshot is still to
  come. The merge loop returns at once and the sink stays empty, also when the
  forwarder's stream closes afterwards; had it gone on, it could have written two
  records at most.
\<close>

theorem merge_returns_without_draining_witness:
  "step MergeDone
     \<lparr>ctxDone = True,
      tasks = [\<lparr>cont_id = ''c1'', contStats = Streaming [Some 2], pc = Sending (Some (1::nat))\<rparr>],
      merger = Merging, out = [], logs = [Listening ''c1'', Received ''c1'']\<rparr>
   = Some \<lparr>ctxDone = True,
           tasks = [\<lparr>cont_id = ''c1'', contStats = Streaming [Some 2], pc = Sending (Some 1)\<rparr>],
           merger = Returned, out = [], logs = [Listening ''c1'', Received ''c1'']\<rparr>
   \<and> map_option out
        (run [StreamEnd 0]
           \<lparr>ctxDone = True,
            tasks = [\<lparr>cont_id = ''c1'', contStats = Streaming [Some 2], pc = Sending (Some (1::nat))\<rparr>],
            merger = Returned, out = [], logs = [Listening ''c1'', Received ''c1'']\<rparr>) = Some []
   \<and> size (in_flight [\<lparr>cont_id = ''c1'', contStats = Streaming [Some 2], pc = Sending (Some (1::nat))\<rparr>]) = 2"
  using merge_returns_without_draining
    [of "\<lparr>ctxDone = True,
          tasks = [\<lparr>cont_id = ''c1'', contStats = Streaming [Some 2], pc = Sending (Some (1::nat))\<rparr>],
          merger = Merging, out = [], logs = [Listening ''c1'', Received ''c1'']\<rparr>"]
  by (simp add: in_flight_def backlog_def nonnil_def)

text \<open>
  The claim as written fails: in this run the signal fires while the forwarder is
  blocked in its send, and the merge loop, instead of returning, receives the
  snapshot and writes it.
\<close>

theorem merge_may_write_after_signal:
  "run [FwdStart 0, FwdRecv 0, Cancel] (logStatsForContainers (\<lambda>c. [Some (1::nat)]) [''c1''])
     = Some \<lparr>ctxDone = True,
             tasks = [\<lparr>cont_id = ''c1'', contStats = Streaming [], pc = Sending (Some 1)\<rparr>],
             merger = Merging, out = [], logs = [Listening ''c1'', Received ''c1'']\<rparr>
   \<and> step (Handoff 0)
        \<lparr>ctxDone = True,
         tasks = [\<lparr>cont_id = ''c1'', contStats = Streaming [], pc = Sending (Some (1::nat))\<rparr>],
         merger = Merging, out = [], logs = [Listening ''c1'', Received ''c1'']\<rparr>
     = Some \<lparr>ctxDone = True,
             tasks = [\<lparr>cont_id = ''c1'', contStats = Streaming [], pc = Selecting\<rparr>],
             merger = Merging, out = [Some 1], logs = [Listening ''c1'', Received ''c1'']\<rparr>"
  by (simp add: logStatsForContainers_def fprintf_stat_def)

section \<open>C1: what reaches the sink before and after cancellation\<close>

text \<open>
  C1, as the code has it, for any number of containers whose streams are finite and
  close (healthy sources). In every configuration the collector reaches:
  \<^item> the sink holds only non-nil snapshots that the sources produced, none more often
    than it was produced;
  \<^item> while the signal has not fired nothing is lost: every non-nil snapshot of every
    source is in the sink or still on its way (held by a forwarder or not yet sent);
  \<^item> while the signal has not fired, a collector that is not at rest can always take a
    step, and a run holds at most \<open>1 + \<Sum> (2 * length (daemon c) + 3)\<close> actions other
    than \<open>Cancel\<close>: left alone, the collector comes to rest;
  \<^item> if the signal has not fired and no action but \<open>Cancel\<close> can proceed, every non-nil
    snapshot of every source is in the sink, and the sink never changes afterwards;
  \<^item> once the merge loop has observed the signal (it has returned), the sink never
    changes: what a forwarder then still holds is never written;
  \<^item> with two containers that each produce five non-nil snapshots and whose streams
    close, a collector that has come to rest before the signal fires has written
    exactly ten records, and no continuation changes that.
  The claim's unconditional "every snapshot produced before cancellation is written"
  does not hold: a snapshot that its forwarder has received but not handed over when
  the merge loop returns is dropped.
\<close>

theorem collector_writes_until_cancellation:
  assumes "run as (logStatsForContainers daemon ids) = Some s"
  shows "mset (out s) \<subseteq># mset (nonnil (concat (map daemon ids)))
      \<and> (\<not> ctxDone s \<longrightarrow>
            mset (out s) + in_flight (tasks s) = mset (nonnil (concat (map daemon ids))))
      \<and> (\<not> ctxDone s \<and> \<not> at_rest s \<longrightarrow> (\<exists>a. a \<noteq> Cancel \<and> step a s \<noteq> None))
      \<and> length (filter (\<lambda>a. a \<noteq> Cancel) as) \<le> 1 + sum_list (map (\<lambda>c. 2 * length (daemon c) + 3) ids)
      \<and> (\<not> ctxDone s \<and> (\<forall>a. a \<noteq> Cancel \<longrightarrow> step a s = None) \<longrightarrow>
            mset (out s) = mset (nonnil (concat (map daemon ids)))
            \<and> (\<forall>bs s'. run bs s = Some s' \<longrightarrow> out s' = out s))
      \<and> (merger s = Returned \<longrightarrow> (\<forall>bs s'. run bs s = Some s' \<longrightarrow> out s' = out s))
      \<and> (\<not> ctxDone s \<and> (\<forall>a. a \<noteq> Cancel \<longrightarrow> step a s = None)
           \<and> length ids = 2 \<and> length (nonnil (daemon (ids ! 0))) = 5
           \<and> length (nonnil (daemon (ids ! 1))) = 5 \<longrightarrow>
            length (out s) = 10
            \<and> (\<forall>bs s'. run bs s = Some s' \<longrightarrow> length (out s') = 10))"
proof -
  let ?init = "logStatsForContainers daemon ids"
  let ?all = "mset (nonnil (concat (map daemon ids)))"
  have init: "mset (out ?init) + in_flight (tasks ?init) = ?all"
    by (simp add: logStatsForContainers_def in_flight_init)
  have ok: "precancel_ok s" by (rule run_precancel_ok[OF init_precancel_ok assms])
  have sub: "mset (out s) \<subseteq># ?all"
    using run_no_gain[OF assms] init by (metis mset_subset_eq_add_left subset_mset.order_trans)
  have keep: "mset (out s) + in_flight (tasks s) = ?all" if "\<not> ctxDone s"
    using run_conserve[OF assms that] init by simp
  have progress: "\<exists>a. a \<noteq> Cancel \<and> step a s \<noteq> None" if "\<not> ctxDone s" "\<not> at_rest s"
    using quiescent_at_rest[OF ok that(1)] that(2) by blast
  have bound: "length (filter (\<lambda>a. a \<noteq> Cancel) as) \<le> 1 + sum_list (map (\<lambda>c. 2 * length (daemon c) + 3) ids)"
    using run_steps_left[OF assms] by (simp add: steps_left_init)
  have rest: "mset (out s) = ?all \<and> (\<forall>bs s'. run bs s = Some s' \<longrightarrow> out s' = out s)"
    if live: "\<not> ctxDone s" and q: "\<forall>a. a \<noteq> Cancel \<longrightarrow> step a s = None"
  proof -
    have r: "at_rest s" by (rule quiescent_at_rest[OF ok live q])
    from keep[OF live] at_rest_in_flight[OF r] have "mset (out s) = ?all" by simp
    moreover have "out s' = out s" if "run bs s = Some s'" for bs s'
      using at_rest_run_out[OF r that] by simp
    ultimately show ?thesis by blast
  qed
  have after: "\<forall>bs s'. run bs s = Some s' \<longrightarrow> out s' = out s" if "merger s = Returned"
    using run_returned[OF that] by blast
  have ten: "length (out s) = 10 \<and> (\<forall>bs s'. run bs s = Some s' \<longrightarrow> length (out s') = 10)"
    if live: "\<not> ctxDone s" and q: "\<forall>a. a \<noteq> Cancel \<longrightarrow> step a s = None"
      and two: "length ids = 2" and five: "length (nonnil (daemon (ids ! 0))) = 5"
      "length (nonnil (daemon (ids ! 1))) = 5"
  proof -
    from two obtain c1 c2 where ids: "ids = [c1, c2]"
      by (cases ids; cases "tl ids") auto
    from rest[OF live q] have m: "mset (out s) = ?all"
      and stay: "\<forall>bs s'. run bs s = Some s' \<longrightarrow> out s' = out s" by simp_all
    from m have "length (out s) = length (nonnil (concat (map daemon ids)))"
      by (metis size_mset)
    also have "\<dots> = 10" using five by (simp add: ids nonnil_append)
    finally have "length (out s) = 10" .
    with stay show ?thesis by simp
  qed
  show ?thesis
    using sub keep progress bound rest after ten by blast
qed

text \<open>
  The scenario of the specification: two containers, five snapshots each, then the
  streams close.
\<close>

definition two_by_five :: "string \<Rightarrow> nat option list" where
  "two_by_five c =
     (if c = ''c1'' then [Some 11, Some 12, Some 13, Some 14, Some 15]
      else if c = ''c2'' then [Some 21, Some 22, Some 23, Some 24, Some 25]
      else [])"

text \<open>
  A run of the scenario in which the forwarders take turns, the streams close and both
  forwarders see the closure. All of it happens before the signal fires.
\<close>

definition taking_turns :: "action list" where
  "taking_turns =
     [FwdStart 0, FwdStart 1]
     @ concat (replicate 5 [FwdRecv 0, Handoff 0, FwdRecv 1, Handoff 1])
     @ [StreamEnd 0, StreamEnd 1, FwdRecv 0, FwdRecv 1]"

definition scenario_end :: "nat collector" where
  "scenario_end =
     \<lparr>ctxDone = False,
      tasks = [\<lparr>cont_id = ''c1'', contStats = Closed, pc = Exited\<rparr>,
               \<lparr>cont_id = ''c2'', contStats = Closed, pc = Exited\<rparr>],
      merger = Merging,
      out = [Some 11, Some 21, Some 12, Some 22, Some 13, Some 23, Some 14, Some 24, Some 15, Some 25],
      logs = [Listening ''c1'', Listening ''c2'',
              Received ''c1'', Received ''c2'', Received ''c1'', Received ''c2'',
              Received ''c1'', Received ''c2'', Received ''c1'', Received ''c2'',
              Received ''c1'', Received ''c2'',
              NoLongerStreaming ''c1'', NoLongerStreaming ''c2'']\<rparr>"

lemma taking_turns_run:
  "run taking_turns (logStatsForContainers two_by_five [''c1'', ''c2'']) = Some scenario_end"
  by (simp add: taking_turns_def logStatsForContainers_def two_by_five_def scenario_end_def
      fprintf_stat_def numeral_eq_Suc)

lemma scenario_end_quiescent: "\<forall>a. a \<noteq> Cancel \<longrightarrow> step a scenario_end = None"
proof (intro allI impI)
  fix a :: action assume "a \<noteq> Cancel"
  moreover have "at_rest scenario_end" "\<not> ctxDone scenario_end"
    by (simp_all add: at_rest_def scenario_end_def)
  ultimately show "step a scenario_end = None" using at_rest_quiescent by blast
qed

theorem collector_writes_until_cancellation_witness:
  "run taking_turns (logStatsForContainers two_by_five [''c1'', ''c2'']) = Some scenario_end
   \<and> \<not> ctxDone scenario_end \<and> at_rest scenario_end
   \<and> length (nonnil (two_by_five ''c1'')) = 5 \<and> length (nonnil (two_by_five ''c2'')) = 5
   \<and> length (out scenario_end) = 10
   \<and> mset (out scenario_end) = mset (nonnil (two_by_five ''c1'' @ two_by_five ''c2''))
   \<and> map_option (\<lambda>s. (merger s, length (out s))) (run [Cancel, MergeDone] scenario_end)
       = Some (Returned, 10)"
proof -
  have five: "length (nonnil (two_by_five ''c1'')) = 5" "length (nonnil (two_by_five ''c2'')) = 5"
    by (simp_all add: two_by_five_def nonnil_def)
  have live: "\<not> ctxDone scenario_end" and rest: "at_rest scenario_end"
    by (simp_all add: scenario_end_def at_rest_def)
  have after: "run [Cancel, MergeDone] scenario_end = Some (scenario_end\<lparr>ctxDone := True, merger := Returned\<rparr>)"
    by (simp add: scenario_end_def)
  from collector_writes_until_cancellation[OF taking_turns_run] live scenario_end_quiescent five
  have "length (out scenario_end) = 10"
    and "mset (out scenario_end) = mset (nonnil (concat (map two_by_five [''c1'', ''c2''])))"
    by simp_all
  with taking_turns_run five live rest after show ?thesis by simp
qed

text \<open>
  The claim as written fails. In this run of the same scenario both streams deliver
  their five snapshots and close before the signal fires, but the forwarder of \<open>c2\<close>
  still holds the last snapshot when the merge loop observes the signal: nine records
  are written, and the merge loop has returned.
\<close>

definition last_one_late :: "action list" where
  "last_one_late =
     [FwdStart 0, FwdStart 1]
     @ concat (replicate 4 [FwdRecv 0, Handoff 0, FwdRecv 1, Handoff 1])
     @ [FwdRecv 0, Handoff 0, FwdRecv 1, StreamEnd 0, StreamEnd 1, FwdRecv 0, Cancel, MergeDone]"

theorem snapshot_in_flight_is_dropped:
  "run last_one_late (logStatsForContainers two_by_five [''c1'', ''c2''])
   = Some \<lparr>ctxDone = True,
           tasks = [\<lparr>cont_id = ''c1'', contStats = Closed, pc = Exited\<rparr>,
                    \<lparr>cont_id = ''c2'', contStats = Closed, pc = Sending (Some 25)\<rparr>],
           merger = Returned,
           out = [Some 11, Some 21, Some 12, Some 22, Some 13, Some 23, Some 14, Some 24, Some 15],
           logs = [Listening ''c1'', Listening ''c2'',
                   Received ''c1'', Received ''c2'', Received ''c1'', Received ''c2'',
                   Received ''c1'', Received ''c2'', Received ''c1'', Received ''c2'',
                   Received ''c1'', Received ''c2'', NoLongerStreaming ''c1'']\<rparr>"
  by (simp add: last_one_late_def logStatsForContainers_def two_by_five_def fprintf_stat_def
      numeral_eq_Suc)

section \<open>The re-subscribing collector of \<^verbatim>\<open>src/main.go\<close>: \<open>statsForContainers\<close>\<close>

text \<open>
  In \<^verbatim>\<open>src/main.go\<close> (lines 116-170) the forwarding goroutine owns a buffered channel
  \<^verbatim>\<open>subscribeAgain\<close> of capacity one. Whenever it can take a value from it, it makes a
  fresh \<^verbatim>\<open>contStats\<close> channel and starts a goroutine that calls \<^verbatim>\<open>client.Stats\<close> on it
  and then takes a value from \<^verbatim>\<open>subscribeAgain\<close> itself. The merge loop (lines 158-169)
  is the one of \<open>logStatsForContainers\<close>.

  A subscription goroutine is streaming (its \<^verbatim>\<open>client.Stats\<close> call still has the listed
  values to send), or waiting for \<^verbatim>\<open><-subscribeAgain\<close> after the call has returned and
  closed the channel, or finished.
\<close>

datatype 'a subscription = Subscribed "'a option list" | AwaitingToken | Finished

text \<open>
  The forwarding goroutine (lines 124-155): not yet scheduled, in its \<^verbatim>\<open>select\<close>,
  blocked in \<^verbatim>\<open>statsChan <- stat\<close>, blocked in \<^verbatim>\<open>subscribeAgain <- true\<close>, or returned.
\<close>

datatype 'a refwd = RSpawned | RSelecting | RSending "'a option" | RPushing | RExited

text \<open>
  \<open>subs\<close> lists the subscription goroutines in the order they were started; the variable
  \<^verbatim>\<open>contStats\<close> is the channel of the last one (with no subscription yet it is the
  channel made at line 125, on which nobody ever sends). \<open>feed\<close> is the environment:
  the streams the daemon will serve to the subscriptions still to come.
\<close>

record 'a resubscriber =
  re_id :: string
  re_pc :: "'a refwd"
  subscribeAgain :: bool
  subs :: "'a subscription list"
  feed :: "'a option list list"

type_synonym 'a recollector = "('a, 'a resubscriber) fanin"

datatype reaction =
    RCancel
  | RMergeDone
  | RStart nat
  | RDone nat
  | RRecv nat
  | RHandoff nat
  | RPush nat
  | RSubscribe nat
  | RStreamEnd nat nat
  | RTakeToken nat nat

text \<open>
  \<^item> \<open>RStart i\<close>: lines 125-129, the goroutine makes its channels, fills
    \<^verbatim>\<open>subscribeAgain\<close> and prints its first line.
  \<^item> \<open>RDone i\<close>: \<^verbatim>\<open>case <-ctx.Done(): return\<close>.
  \<^item> \<open>RRecv i\<close>: \<^verbatim>\<open>case stat := <-contStats\<close>. A closed channel yields nil at once; a
    nil value makes the loop \<^verbatim>\<open>continue\<close>; any other value is logged and the goroutine
    goes on to \<^verbatim>\<open>statsChan <- stat\<close>.
  \<^item> \<open>RHandoff i\<close>: the rendezvous on \<^verbatim>\<open>statsChan\<close> with the merge loop; the forwarder
    goes on to \<^verbatim>\<open>subscribeAgain <- true\<close>.
  \<^item> \<open>RPush i\<close>: \<^verbatim>\<open>subscribeAgain <- true\<close>, possible while the buffer is empty.
  \<^item> \<open>RSubscribe i\<close>: \<^verbatim>\<open>case <-subscribeAgain\<close>: a fresh channel and a new subscription.
  \<^item> \<open>RStreamEnd i k\<close>: the \<^verbatim>\<open>client.Stats\<close> call of subscription \<open>k\<close> returns and closes
    its channel (stream exhausted, or context cancelled).
  \<^item> \<open>RTakeToken i k\<close>: subscription \<open>k\<close> completes its \<^verbatim>\<open><-subscribeAgain\<close>.
\<close>

definition set_task :: "nat \<Rightarrow> 't \<Rightarrow> ('a, 't) fanin \<Rightarrow> ('a, 't) fanin" where
  "set_task i t s = s\<lparr>tasks := (tasks s)[i := t]\<rparr>"

fun restep :: "reaction \<Rightarrow> 'a recollector \<Rightarrow> 'a recollector option" where
  "restep RCancel s = Some (s\<lparr>ctxDone := True\<rparr>)"
| "restep RMergeDone s =
     (if merger s = Merging \<and> ctxDone s then Some (s\<lparr>merger := Returned\<rparr>) else None)"
| "restep (RStart i) s =
     (if i < length (tasks s) \<and> re_pc (tasks s ! i) = RSpawned
      then Some (set_task i ((tasks s ! i)\<lparr>re_pc := RSelecting, subscribeAgain := True\<rparr>)
                   (s\<lparr>logs := logs s @ [Listening (re_id (tasks s ! i))]\<rparr>))
      else None)"
| "restep (RDone i) s =
     (if i < length (tasks s) \<and> re_pc (tasks s ! i) = RSelecting \<and> ctxDone s
      then Some (set_task i ((tasks s ! i)\<lparr>re_pc := RExited\<rparr>) s)
      else None)"
| "restep (RRecv i) s =
     (if i < length (tasks s) \<and> re_pc (tasks s ! i) = RSelecting \<and> subs (tasks s ! i) \<noteq> [] then
        (case last (subs (tasks s ! i)) of
           Subscribed [] \<Rightarrow> None
         | Subscribed (None # xs) \<Rightarrow>
             Some (set_task i ((tasks s ! i)\<lparr>subs := butlast (subs (tasks s ! i)) @ [Subscribed xs]\<rparr>) s)
         | Subscribed (Some v # xs) \<Rightarrow>
             Some (set_task i ((tasks s ! i)\<lparr>subs := butlast (subs (tasks s ! i)) @ [Subscribed xs],
                                              re_pc := RSending (Some v)\<rparr>)
                     (s\<lparr>logs := logs s @ [Received (re_id (tasks s ! i))]\<rparr>))
         | _ \<Rightarrow> Some s)
      else None)"
| "restep (RHandoff i) s =
     (if i < length (tasks s) \<and> merger s = Merging then
        (case re_pc (tasks s ! i) of
           RSending x \<Rightarrow>
             Some (set_task i ((tasks s ! i)\<lparr>re_pc := RPushing\<rparr>) (s\<lparr>out := fprintf_stat (out s) x\<rparr>))
         | _ \<Rightarrow> None)
      else None)"
| "restep (RPush i) s =
     (if i < length (tasks s) \<and> re_pc (tasks s ! i) = RPushing \<and> \<not> subscribeAgain (tasks s ! i)
      then Some (set_task i ((tasks s ! i)\<lparr>re_pc := RSelecting, subscribeAgain := True\<rparr>) s)
      else None)"
| "restep (RSubscribe i) s =
     (if i < length (tasks s) \<and> re_pc (tasks s ! i) = RSelecting \<and> subscribeAgain (tasks s ! i)
      then Some (set_task i
                   ((tasks s ! i)\<lparr>subscribeAgain := False,
                                   subs := subs (tasks s ! i)
                                           @ [Subscribed (case feed (tasks s ! i) of [] \<Rightarrow> [] | xs # _ \<Rightarrow> xs)],
                                   feed := tl (feed (tasks s ! i))\<rparr>)
                   (s\<lparr>logs := logs s @ [ListeningForMore]\<rparr>))
      else None)"
| "restep (RStreamEnd i k) s =
     (if i < length (tasks s) \<and> k < length (subs (tasks s ! i)) then
        (case subs (tasks s ! i) ! k of
           Subscribed xs \<Rightarrow>
             if xs = [] \<or> ctxDone s
             then Some (set_task i ((tasks s ! i)\<lparr>subs := (subs (tasks s ! i))[k := AwaitingToken]\<rparr>) s)
             else None
         | _ \<Rightarrow> None)
      else None)"
| "restep (RTakeToken i k) s =
     (if i < length (tasks s) \<and> k < length (subs (tasks s ! i))
         \<and> subs (tasks s ! i) ! k = AwaitingToken \<and> subscribeAgain (tasks s ! i)
      then Some (set_task i ((tasks s ! i)\<lparr>subscribeAgain := False,
                                           subs := (subs (tasks s ! i))[k := Finished]\<rparr>) s)
      else None)"

fun rerun :: "reaction list \<Rightarrow> 'a recollector \<Rightarrow> 'a recollector option" where
  "rerun [] s = Some s"
| "rerun (a # as) s = (case restep a s of None \<Rightarrow> None | Some s' \<Rightarrow> rerun as s')"

text \<open>
  The configuration \<^verbatim>\<open>statsForContainers\<close> sets up before its merge loop. \<open>streams c\<close> is
  the environment: the streams the daemon serves to the successive subscriptions to
  container \<open>c\<close>.
\<close>

definition statsForContainers ::
  "(string \<Rightarrow> 'a option list list) \<Rightarrow> string list \<Rightarrow> 'a recollector" where
  "statsForContainers streams containerIDs =
     \<lparr>ctxDone = False,
      tasks = map (\<lambda>c. \<lparr>re_id = c, re_pc = RSpawned, subscribeAgain = False, subs = [],
                        feed = streams c\<rparr>) containerIDs,
      merger = Merging,
      out = [],
      logs = []\<rparr>"

lemma restep_out_no_nil:
  "None \<notin> set (out s) \<Longrightarrow> restep a s = Some s' \<Longrightarrow> None \<notin> set (out s')"
  by (cases a)
    (auto simp: set_task_def fprintf_stat_no_nil
      split: if_splits subscription.splits list.splits option.splits refwd.splits)

lemma rerun_invariant:
  assumes "\<And>a s s'. P s \<Longrightarrow> restep a s = Some s' \<Longrightarrow> P s'"
  shows "P s \<Longrightarrow> rerun as s = Some s' \<Longrightarrow> P s'"
proof (induction as arbitrary: s)
  case Nil
  then show ?case by simp
next
  case (Cons a as)
  then show ?case using assms by (auto split: option.splits)
qed

lemma list_all_update_nth:
  "list_all P ts \<Longrightarrow> i < length ts \<Longrightarrow> (P (ts ! i) \<longrightarrow> P t) \<Longrightarrow> list_all P (ts[i := t])"
  by (auto simp: list_all_length nth_list_update)

text \<open>The forwarder of \<^verbatim>\<open>src/main.go\<close> never offers a nil value to the merge loop.\<close>

definition no_nil_offered :: "'a recollector \<Rightarrow> bool" where
  "no_nil_offered s = list_all (\<lambda>t. re_pc t \<noteq> RSending None) (tasks s)"

lemma restep_no_nil_offered:
  "no_nil_offered s \<Longrightarrow> restep a s = Some s' \<Longrightarrow> no_nil_offered s'"
  unfolding no_nil_offered_def
  by (cases a)
    (auto simp: set_task_def intro!: list_all_update_nth
      split: if_splits subscription.splits list.splits option.splits refwd.splits)

text \<open>
  What forwarder \<open>t\<close> of \<^verbatim>\<open>src/main.go\<close> can still bring to the sink: the value it
  holds, what the subscription behind the current \<^verbatim>\<open>contStats\<close> still has to send, and
  the streams of the subscriptions to come. What an abandoned subscription still has
  to send is lost: nobody receives from its channel.
\<close>

fun re_held :: "'a refwd \<Rightarrow> 'a option list" where
  "re_held (RSending x) = [x]"
| "re_held _ = []"

definition re_current :: "'a resubscriber \<Rightarrow> 'a option list" where
  "re_current t =
     (if subs t = [] then []
      else (case last (subs t) of Subscribed xs \<Rightarrow> xs | _ \<Rightarrow> []))"

definition re_owed :: "'a resubscriber \<Rightarrow> 'a option list" where
  "re_owed t = re_held (re_pc t) @ re_current t @ concat (feed t)"

definition trail :: "('a \<Rightarrow> string) \<Rightarrow> 'a recollector \<Rightarrow> nat \<Rightarrow> 'a option list" where
  "trail lbl s i =
     written_of lbl (re_id (tasks s ! i)) (out s) @ nonnil (re_owed (tasks s ! i))"

lemma subseq_drop_middle: "subseq (xs @ zs) (xs @ ys @ zs)"
  by (simp add: subseq_append' subseq_drop_many)

lemma owed_recv_nil:
  assumes "subs t \<noteq> []" "last (subs t) = Subscribed (None # xs)"
  shows "nonnil (re_owed (t\<lparr>subs := butlast (subs t) @ [Subscribed xs]\<rparr>)) = nonnil (re_owed t)"
  using assms by (simp add: re_owed_def re_current_def nonnil_def)

lemma owed_recv:
  assumes "subs t \<noteq> []" "last (subs t) = Subscribed (x # xs)" "re_pc t = RSelecting"
  shows "nonnil (re_owed (t\<lparr>subs := butlast (subs t) @ [Subscribed xs], re_pc := RSending x\<rparr>))
         = nonnil (re_owed t)"
  using assms by (simp add: re_owed_def re_current_def nonnil_def)

lemma owed_subscribe:
  "subseq (nonnil (re_owed (t\<lparr>subscribeAgain := b,
                                subs := subs t @ [Subscribed (case feed t of [] \<Rightarrow> [] | xs # _ \<Rightarrow> xs)],
                                feed := tl (feed t)\<rparr>)))
          (nonnil (re_owed t))"
proof -
  have "(case feed t of [] \<Rightarrow> [] | xs # _ \<Rightarrow> xs) @ concat (tl (feed t)) = concat (feed t)"
    by (cases "feed t") simp_all
  then have "re_owed (t\<lparr>subscribeAgain := b,
                        subs := subs t @ [Subscribed (case feed t of [] \<Rightarrow> [] | xs # _ \<Rightarrow> xs)],
                        feed := tl (feed t)\<rparr>) = re_held (re_pc t) @ concat (feed t)"
    by (simp add: re_owed_def re_current_def)
  then show ?thesis
    by (simp add: re_owed_def nonnil_append subseq_drop_middle)
qed

lemma current_update:
  assumes "k < length (subs t)" "v = AwaitingToken \<or> v = Finished"
  shows "re_current (t\<lparr>subs := (subs t)[k := v]\<rparr>)
         = (if k = length (subs t) - 1 then [] else re_current t)"
  using assms by (auto simp: re_current_def last_list_update)

lemma owed_sub_closed:
  assumes "k < length (subs t)" "v = AwaitingToken \<or> v = Finished"
  shows "subseq (nonnil (re_owed (t\<lparr>subs := (subs t)[k := v]\<rparr>))) (nonnil (re_owed t))"
proof (cases "k = length (subs t) - 1")
  case True
  with current_update[OF assms]
  have "re_owed (t\<lparr>subs := (subs t)[k := v]\<rparr>) = re_held (re_pc t) @ concat (feed t)"
    by (simp add: re_owed_def)
  then show ?thesis by (simp add: re_owed_def nonnil_append subseq_drop_middle)
next
  case False
  with current_update[OF assms]
  have "re_owed (t\<lparr>subs := (subs t)[k := v]\<rparr>) = re_owed t"
    by (simp add: re_owed_def)
  then show ?thesis by simp
qed

lemma owed_fields [simp]:
  "re_owed (t\<lparr>subscribeAgain := b\<rparr>) = re_owed t"
  by (simp add: re_owed_def re_current_def)

lemma owed_pc:
  "re_held p = re_held (re_pc t) \<Longrightarrow> re_owed (t\<lparr>re_pc := p\<rparr>) = re_owed t"
  by (simp add: re_owed_def re_current_def)

lemma set_task_fields [simp]:
  "tasks (set_task i t s) = (tasks s)[i := t]" "out (set_task i t s) = out s"
  "ctxDone (set_task i t s) = ctxDone s" "merger (set_task i t s) = merger s"
  "logs (set_task i t s) = logs s"
  by (simp_all add: set_task_def)

lemma restep_re_ids: "restep a s = Some s' \<Longrightarrow> map re_id (tasks s') = map re_id (tasks s)"
  by (cases a)
    (auto simp: map_update list_update_same_conv
      split: if_splits subscription.splits list.splits option.splits refwd.splits)

lemma restep_length_tasks: "restep a s = Some s' \<Longrightarrow> length (tasks s') = length (tasks s)"
  using restep_re_ids[of a s s'] by (metis length_map)

lemma trail_other:
  assumes "tasks s' ! j = tasks s ! j"
    and "written_of lbl (re_id (tasks s ! j)) (out s') = written_of lbl (re_id (tasks s ! j)) (out s)"
  shows "trail lbl s' j = trail lbl s j"
  using assms by (simp add: trail_def)

lemma trail_own:
  assumes "out s' = out s" "re_id (tasks s' ! j) = re_id (tasks s ! j)"
    and "subseq (nonnil (re_owed (tasks s' ! j))) (nonnil (re_owed (tasks s ! j)))"
  shows "subseq (trail lbl s' j) (trail lbl s j)"
  using assms by (simp add: trail_def subseq_append')

lemma restep_trail:
  assumes st: "restep a s = Some s'"
    and dist: "distinct (map re_id (tasks s))"
    and own: "\<forall>i<length (tasks s). \<forall>x. re_pc (tasks s ! i) = RSending x \<longrightarrow>
                x = None \<or> map_option lbl x = Some (re_id (tasks s ! i))"
    and j: "j < length (tasks s)"
  shows "subseq (trail lbl s' j) (trail lbl s j)"
proof (cases a)
  case RCancel
  with st show ?thesis by (auto simp: trail_def)
next
  case RMergeDone
  with st show ?thesis by (auto simp: trail_def split: if_splits)
next
  case (RStart i)
  with st have i: "i < length (tasks s)" and pc: "re_pc (tasks s ! i) = RSpawned"
    and s': "s' = set_task i ((tasks s ! i)\<lparr>re_pc := RSelecting, subscribeAgain := True\<rparr>)
                    (s\<lparr>logs := logs s @ [Listening (re_id (tasks s ! i))]\<rparr>)"
    by (auto split: if_splits)
  show ?thesis
  proof (cases "i = j")
    case True
    have "re_owed ((tasks s ! j)\<lparr>re_pc := RSelecting, subscribeAgain := True\<rparr>) = re_owed (tasks s ! j)"
      using pc True by (simp add: re_owed_def re_current_def)
    with True j show ?thesis by (simp add: s' trail_def)
  next
    case False
    then show ?thesis by (simp add: s' trail_def)
  qed
next
  case (RDone i)
  with st have i: "i < length (tasks s)" and pc: "re_pc (tasks s ! i) = RSelecting"
    and s': "s' = set_task i ((tasks s ! i)\<lparr>re_pc := RExited\<rparr>) s"
    by (auto split: if_splits)
  show ?thesis
  proof (cases "i = j")
    case True
    have "re_owed ((tasks s ! j)\<lparr>re_pc := RExited\<rparr>) = re_owed (tasks s ! j)"
      using pc True by (simp add: owed_pc)
    with True j show ?thesis by (simp add: s' trail_def)
  next
    case False
    then show ?thesis by (simp add: s' trail_def)
  qed
next
  case (RRecv i)
  with st have i: "i < length (tasks s)" and pc: "re_pc (tasks s ! i) = RSelecting"
    and ne: "subs (tasks s ! i) \<noteq> []"
    by (auto split: if_splits)
  show ?thesis
  proof (cases "last (subs (tasks s ! i))")
    case (Subscribed zs)
    show ?thesis
    proof (cases zs)
      case Nil
      with RRecv st i pc ne Subscribed show ?thesis by simp
    next
      case (Cons x xs)
      show ?thesis
      proof (cases x)
        case None
        with RRecv st i pc ne Subscribed Cons
        have s': "s' = set_task i ((tasks s ! i)\<lparr>subs := butlast (subs (tasks s ! i)) @ [Subscribed xs]\<rparr>) s"
          by simp
        show ?thesis
        proof (cases "i = j")
          case True
          with owed_recv_nil[OF ne] Subscribed Cons None j show ?thesis
            by (simp add: s' trail_def)
        next
          case False
          then show ?thesis by (simp add: s' trail_def)
        qed
      next
        case (Some v)
        with RRecv st i pc ne Subscribed Cons
        have s': "s' = set_task i ((tasks s ! i)\<lparr>subs := butlast (subs (tasks s ! i)) @ [Subscribed xs],
                                                  re_pc := RSending x\<rparr>)
                        (s\<lparr>logs := logs s @ [Received (re_id (tasks s ! i))]\<rparr>)"
          by simp
        show ?thesis
        proof (cases "i = j")
          case True
          with owed_recv[OF ne _ pc] Subscribed Cons j show ?thesis
            by (simp add: s' trail_def)
        next
          case False
          then show ?thesis by (simp add: s' trail_def)
        qed
      qed
    qed
  next
    case AwaitingToken
    with RRecv st i pc ne have "s' = s" by simp
    then show ?thesis by simp
  next
    case Finished
    with RRecv st i pc ne have "s' = s" by simp
    then show ?thesis by simp
  qed
next
  case (RHandoff i)
  with st obtain x where i: "i < length (tasks s)" and x: "re_pc (tasks s ! i) = RSending x"
    and s': "s' = set_task i ((tasks s ! i)\<lparr>re_pc := RPushing\<rparr>) (s\<lparr>out := fprintf_stat (out s) x\<rparr>)"
    by (auto split: if_splits refwd.splits)
  from own i x have lab: "x = None \<or> map_option lbl x = Some (re_id (tasks s ! i))" by blast
  show ?thesis
  proof (cases "i = j")
    case True
    have "nonnil (re_owed (tasks s ! j)) = nonnil [x] @ nonnil (re_owed ((tasks s ! j)\<lparr>re_pc := RPushing\<rparr>))"
      using x True by (simp add: re_owed_def re_current_def nonnil_def)
    with written_of_fprintf_own[OF lab] True j show ?thesis
      by (simp add: s' trail_def)
  next
    case False
    with distinct_conv_nth[THEN iffD1, OF dist] i j
    have "re_id (tasks s ! i) \<noteq> re_id (tasks s ! j)" by (metis length_map nth_map)
    with lab have "x = None \<or> map_option lbl x \<noteq> Some (re_id (tasks s ! j))" by auto
    from written_of_fprintf_other[OF this] False show ?thesis
      by (simp add: s' trail_def)
  qed
next
  case (RPush i)
  with st have i: "i < length (tasks s)" and pc: "re_pc (tasks s ! i) = RPushing"
    and s': "s' = set_task i ((tasks s ! i)\<lparr>re_pc := RSelecting, subscribeAgain := True\<rparr>) s"
    by (auto split: if_splits)
  show ?thesis
  proof (cases "i = j")
    case True
    have "re_owed ((tasks s ! j)\<lparr>re_pc := RSelecting, subscribeAgain := True\<rparr>) = re_owed (tasks s ! j)"
      using pc True by (simp add: re_owed_def re_current_def)
    with True j show ?thesis by (simp add: s' trail_def)
  next
    case False
    then show ?thesis by (simp add: s' trail_def)
  qed
next
  case (RSubscribe i)
  with st have i: "i < length (tasks s)"
    and s': "s' = set_task i
                   ((tasks s ! i)\<lparr>subscribeAgain := False,
                                   subs := subs (tasks s ! i)
                                           @ [Subscribed (case feed (tasks s ! i) of [] \<Rightarrow> [] | xs # _ \<Rightarrow> xs)],
                                   feed := tl (feed (tasks s ! i))\<rparr>)
                   (s\<lparr>logs := logs s @ [ListeningForMore]\<rparr>)"
    by (auto split: if_splits)
  show ?thesis
  proof (cases "i = j")
    case True
    with owed_subscribe[of "tasks s ! j" False] j show ?thesis
      by (simp add: s' trail_def subseq_append')
  next
    case False
    then show ?thesis by (simp add: s' trail_def)
  qed
next
  case (RStreamEnd i k)
  with st have i: "i < length (tasks s)" and k: "k < length (subs (tasks s ! i))"
    and s': "s' = set_task i ((tasks s ! i)\<lparr>subs := (subs (tasks s ! i))[k := AwaitingToken]\<rparr>) s"
    by (auto split: if_splits subscription.splits)
  show ?thesis
  proof (cases "i = j")
    case True
    with owed_sub_closed[OF k, of AwaitingToken] j show ?thesis
      by (simp add: s' trail_def subseq_append')
  next
    case False
    then show ?thesis by (simp add: s' trail_def)
  qed
next
  case (RTakeToken i k)
  with st have i: "i < length (tasks s)" and k: "k < length (subs (tasks s ! i))"
    and s': "s' = set_task i ((tasks s ! i)\<lparr>subscribeAgain := False,
                                              subs := (subs (tasks s ! i))[k := Finished]\<rparr>) s"
    by (auto split: if_splits)
  have "re_owed ((tasks s ! i)\<lparr>subscribeAgain := False, subs := (subs (tasks s ! i))[k := Finished]\<rparr>)
        = re_owed ((tasks s ! i)\<lparr>subs := (subs (tasks s ! i))[k := Finished]\<rparr>)"
    by (simp add: re_owed_def re_current_def)
  with owed_sub_closed[OF k, of Finished]
  have sub: "subseq (nonnil (re_owed ((tasks s ! i)\<lparr>subscribeAgain := False,
                                                   subs := (subs (tasks s ! i))[k := Finished]\<rparr>)))
                    (nonnil (re_owed (tasks s ! i)))"
    by simp
  show ?thesis
  proof (cases "i = j")
    case True
    with sub j show ?thesis by (simp add: s' trail_def subseq_append')
  next
    case False
    then show ?thesis by (simp add: s' trail_def)
  qed
qed

definition re_inv :: "(string \<Rightarrow> 'a option list list) \<Rightarrow> ('a \<Rightarrow> string) \<Rightarrow> 'a recollector \<Rightarrow> bool" where
  "re_inv streams lbl s =
     (\<forall>i<length (tasks s). subseq (trail lbl s i) (nonnil (concat (streams (re_id (tasks s ! i))))))"

lemma subseq_set: "subseq xs ys \<Longrightarrow> set xs \<subseteq> set ys"
  by (auto elim: list_emb_set)

lemma re_inv_own:
  assumes inv: "re_inv streams lbl s"
    and lab: "labelled (\<lambda>c. concat (streams c)) lbl (map re_id (tasks s))"
    and i: "i < length (tasks s)" and x: "re_pc (tasks s ! i) = RSending x"
  shows "x = None \<or> map_option lbl x = Some (re_id (tasks s ! i))"
proof (cases x)
  case None
  then show ?thesis by simp
next
  case (Some v)
  let ?c = "re_id (tasks s ! i)"
  have "Some v \<in> set (trail lbl s i)"
    using x Some by (simp add: trail_def re_owed_def nonnil_def)
  moreover from inv i have "subseq (trail lbl s i) (nonnil (concat (streams ?c)))"
    by (simp add: re_inv_def)
  ultimately have "Some v \<in> set (nonnil (concat (streams ?c)))"
    using subseq_set by blast
  then have "Some v \<in> set (concat (streams ?c))" by (simp add: set_nonnil)
  moreover have "?c \<in> set (map re_id (tasks s))" using i by simp
  ultimately have "lbl v = ?c" using labelled_lbl[OF lab] by blast
  with Some show ?thesis by simp
qed

lemma restep_re_inv:
  assumes st: "restep a s = Some s'"
    and dist: "distinct (map re_id (tasks s))"
    and lab: "labelled (\<lambda>c. concat (streams c)) lbl (map re_id (tasks s))"
    and inv: "re_inv streams lbl s"
  shows "re_inv streams lbl s'"
proof -
  have own: "\<forall>i<length (tasks s). \<forall>x. re_pc (tasks s ! i) = RSending x \<longrightarrow>
                x = None \<or> map_option lbl x = Some (re_id (tasks s ! i))"
    using re_inv_own[OF inv lab] by blast
  have "subseq (trail lbl s' j) (nonnil (concat (streams (re_id (tasks s' ! j)))))"
    if j': "j < length (tasks s')" for j
  proof -
    from j' restep_length_tasks[OF st] have j: "j < length (tasks s)" by simp
    have "re_id (tasks s' ! j) = re_id (tasks s ! j)"
      using restep_re_ids[OF st] j j' by (metis nth_map)
    moreover from inv j have "subseq (trail lbl s j) (nonnil (concat (streams (re_id (tasks s ! j)))))"
      by (simp add: re_inv_def)
    ultimately show ?thesis
      using restep_trail[OF st dist own j] subseq_order.order_trans by metis
  qed
  then show ?thesis by (simp add: re_inv_def)
qed

lemma rerun_re_inv:
  assumes "rerun as s = Some s'"
    and "distinct (map re_id (tasks s))"
    and "labelled (\<lambda>c. concat (streams c)) lbl (map re_id (tasks s))"
    and "re_inv streams lbl s"
  shows "re_inv streams lbl s' \<and> map re_id (tasks s') = map re_id (tasks s)"
  using assms
proof (induction as arbitrary: s)
  case Nil
  then show ?case by simp
next
  case (Cons a as)
  then obtain s1 where 1: "restep a s = Some s1" and 2: "rerun as s1 = Some s'"
    by (auto split: option.splits)
  have ids: "map re_id (tasks s1) = map re_id (tasks s)" by (rule restep_re_ids[OF 1])
  have "re_inv streams lbl s1" by (rule restep_re_inv[OF 1 Cons.prems(2,3,4)])
  with Cons.IH[OF 2] ids Cons.prems(2,3) show ?case by simp
qed

lemma init_re_inv: "re_inv streams lbl (statsForContainers streams ids)"
  by (simp add: re_inv_def statsForContainers_def trail_def written_of_def re_owed_def re_current_def)

lemma written_subseq_trail: "subseq (written_of lbl (re_id (tasks s ! i)) (out s)) (trail lbl s i)"
  unfolding trail_def by (rule prefix_imp_subseq) simp

section \<open>C5: nil values never reach the sink\<close>

lemma run_out_no_nil: "None \<notin> set (out s) \<Longrightarrow> run as s = Some s' \<Longrightarrow> None \<notin> set (out s')"
  by (rule run_invariant[where P = "\<lambda>s. None \<notin> set (out s)", OF step_out_no_nil])

lemma rerun_out_no_nil: "None \<notin> set (out s) \<Longrightarrow> rerun as s = Some s' \<Longrightarrow> None \<notin> set (out s')"
  by (rule rerun_invariant[where P = "\<lambda>s. None \<notin> set (out s)", OF restep_out_no_nil])

lemma rerun_no_nil_offered: "no_nil_offered s \<Longrightarrow> rerun as s = Some s' \<Longrightarrow> no_nil_offered s'"
  by (rule rerun_invariant[where P = no_nil_offered, OF restep_no_nil_offered])

text \<open>
  C5. Whatever the streams deliver and however the goroutines are scheduled, the sink
  never holds a nil value, in \<open>logStatsForContainers\<close> and in \<open>statsForContainers\<close>.
  The merge loop drops a nil value it receives from \<^verbatim>\<open>statsChan\<close>: the sink and the
  log stay as they are. In \<open>logStatsForContainers\<close> the forwarder passes a nil value
  on and the merge loop drops it; in \<open>statsForContainers\<close> the forwarder itself drops a
  nil value it receives from a stream and never offers one to the merge loop.
\<close>

theorem nil_snapshot_never_written:
  "(run as (logStatsForContainers daemon ids) = Some s \<longrightarrow> None \<notin> set (out s))
   \<and> (rerun bs (statsForContainers streams ids') = Some r \<longrightarrow>
         None \<notin> set (out r) \<and> no_nil_offered r)
   \<and> fprintf_stat sink None = sink
   \<and> (i < length (tasks s0) \<and> pc (tasks s0 ! i) = Sending None \<and> merger s0 = Merging \<longrightarrow>
         (\<exists>s1. step (Handoff i) s0 = Some s1 \<and> out s1 = out s0 \<and> logs s1 = logs s0))
   \<and> (i < length (tasks r0) \<and> re_pc (tasks r0 ! i) = RSelecting \<and> subs (tasks r0 ! i) \<noteq> []
        \<and> last (subs (tasks r0 ! i)) = Subscribed (None # xs) \<longrightarrow>
         (\<exists>r1. restep (RRecv i) r0 = Some r1 \<and> out r1 = out r0 \<and> logs r1 = logs r0
               \<and> re_pc (tasks r1 ! i) = RSelecting))"
proof (intro conjI impI)
  assume "run as (logStatsForContainers daemon ids) = Some s"
  then show "None \<notin> set (out s)"
    by (rule run_out_no_nil[rotated]) (simp add: logStatsForContainers_def)
next
  assume r: "rerun bs (statsForContainers streams ids') = Some r"
  then show "None \<notin> set (out r)"
    by (rule rerun_out_no_nil[rotated]) (simp add: statsForContainers_def)
  from r show "no_nil_offered r"
    by (rule rerun_no_nil_offered[rotated])
      (simp add: statsForContainers_def no_nil_offered_def list_all_iff)
next
  show "fprintf_stat sink None = sink" by (simp add: fprintf_stat_def)
next
  assume "i < length (tasks s0) \<and> pc (tasks s0 ! i) = Sending None \<and> merger s0 = Merging"
  then show "\<exists>s1. step (Handoff i) s0 = Some s1 \<and> out s1 = out s0 \<and> logs s1 = logs s0"
    by (simp add: fprintf_stat_def)
next
  assume "i < length (tasks r0) \<and> re_pc (tasks r0 ! i) = RSelecting \<and> subs (tasks r0 ! i) \<noteq> []
          \<and> last (subs (tasks r0 ! i)) = Subscribed (None # xs)"
  then show "\<exists>r1. restep (RRecv i) r0 = Some r1 \<and> out r1 = out r0 \<and> logs r1 = logs r0
               \<and> re_pc (tasks r1 ! i) = RSelecting"
    by simp
qed

text \<open>
  A stream that delivers a nil value and then a snapshot: in both collectors only the
  snapshot is written.
\<close>

theorem nil_snapshot_never_written_witness:
  "run [FwdStart 0, FwdRecv 0, Handoff 0, FwdRecv 0, Handoff 0]
       (logStatsForContainers (\<lambda>c. [None, Some (1::nat)]) [''c1''])
     = Some \<lparr>ctxDone = False,
             tasks = [\<lparr>cont_id = ''c1'', contStats = Streaming [], pc = Selecting\<rparr>],
             merger = Merging, out = [Some 1],
             logs = [Listening ''c1'', Received ''c1'', Received ''c1'']\<rparr>
   \<and> rerun [RStart 0, RSubscribe 0, RRecv 0, RRecv 0, RHandoff 0]
        (statsForContainers (\<lambda>c. [[None, Some (1::nat)]]) [''c1''])
     = Some \<lparr>ctxDone = False,
             tasks = [\<lparr>re_id = ''c1'', re_pc = RPushing, subscribeAgain = False,
                       subs = [Subscribed []], feed = []\<rparr>],
             merger = Merging, out = [Some 1],
             logs = [Listening ''c1'', ListeningForMore, Received ''c1'']\<rparr>
   \<and> step (Handoff 0)
        \<lparr>ctxDone = False,
         tasks = [\<lparr>cont_id = ''c1'', contStats = Streaming [Some (1::nat)], pc = Sending None\<rparr>],
         merger = Merging, out = [], logs = [Listening ''c1'', Received ''c1'']\<rparr>
     = Some \<lparr>ctxDone = False,
             tasks = [\<lparr>cont_id = ''c1'', contStats = Streaming [Some 1], pc = Selecting\<rparr>],
             merger = Merging, out = [], logs = [Listening ''c1'', Received ''c1'']\<rparr>
   \<and> restep (RRecv 0)
        \<lparr>ctxDone = False,
         tasks = [\<lparr>re_id = ''c1'', re_pc = RSelecting, subscribeAgain = False,
                   subs = [Subscribed [None, Some (1::nat)]], feed = []\<rparr>],
         merger = Merging, out = [], logs = [Listening ''c1'', ListeningForMore]\<rparr>
     = Some \<lparr>ctxDone = False,
             tasks = [\<lparr>re_id = ''c1'', re_pc = RSelecting, subscribeAgain = False,
                       subs = [Subscribed [Some 1]], feed = []\<rparr>],
             merger = Merging, out = [], logs = [Listening ''c1'', ListeningForMore]\<rparr>"
  using nil_snapshot_never_written
    [of "[FwdStart 0, FwdRecv 0, Handoff 0, FwdRecv 0, Handoff 0]" "\<lambda>c. [None, Some (1::nat)]" "[''c1'']"
        "\<lparr>ctxDone = False,
          tasks = [\<lparr>cont_id = ''c1'', contStats = Streaming [], pc = Selecting\<rparr>],
          merger = Merging, out = [Some 1],
          logs = [Listening ''c1'', Received ''c1'', Received ''c1'']\<rparr>"
        "[RStart 0, RSubscribe 0, RRecv 0, RRecv 0, RHandoff 0]" "\<lambda>c. [[None, Some (1::nat)]]" "[''c1'']"
        "\<lparr>ctxDone = False,
          tasks = [\<lparr>re_id = ''c1'', re_pc = RPushing, subscribeAgain = False,
                    subs = [Subscribed []], feed = []\<rparr>],
          merger = Merging, out = [Some 1],
          logs = [Listening ''c1'', ListeningForMore, Received ''c1'']\<rparr>"
        "[]" 0
        "\<lparr>ctxDone = False,
          tasks = [\<lparr>cont_id = ''c1'', contStats = Streaming [Some (1::nat)], pc = Sending None\<rparr>],
          merger = Merging, out = [], logs = [Listening ''c1'', Received ''c1'']\<rparr>"
        "\<lparr>ctxDone = False,
          tasks = [\<lparr>re_id = ''c1'', re_pc = RSelecting, subscribeAgain = False,
                    subs = [Subscribed [None, Some (1::nat)]], feed = []\<rparr>],
          merger = Merging, out = [], logs = [Listening ''c1'', ListeningForMore]\<rparr>"
        "[Some 1]"]
  by (simp add: logStatsForContainers_def statsForContainers_def fprintf_stat_def set_task_def)

section \<open>C2: attribution, at most once, arrival order within a container\<close>

lemma init_cont_ids: "map cont_id (tasks (logStatsForContainers daemon ids)) = ids"
  by (simp add: logStatsForContainers_def comp_def)

lemma init_re_ids: "map re_id (tasks (statsForContainers streams ids)) = ids"
  by (simp add: statsForContainers_def comp_def)

lemma held_le_one: "length (held p) \<le> 1"
  by (cases p) simp_all

lemma reached_task_inv:
  assumes "distinct ids" "labelled daemon lbl ids"
    and "run as (logStatsForContainers daemon ids) = Some s" and "i < length ids"
  shows "cont_id (tasks s ! i) = ids ! i \<and> task_inv daemon lbl s i"
proof -
  let ?init = "logStatsForContainers daemon ids"
  have ids: "map cont_id (tasks s) = ids"
    using run_cont_ids[OF assms(3)] init_cont_ids by simp
  then have len: "length (tasks s) = length ids" by (metis length_map)
  have "\<forall>i<length (tasks s). task_inv daemon lbl s i"
    by (rule run_task_inv[OF assms(3)]) (use assms(1,2) init_task_inv in \<open>simp_all add: init_cont_ids\<close>)
  moreover have "cont_id (tasks s ! i) = ids ! i"
    using ids len assms(4) by (metis nth_map)
  ultimately show ?thesis using len assms(4) by simp
qed

lemma written_provenance:
  assumes "labelled daemon lbl ids"
    and "run as (logStatsForContainers daemon ids) = Some s" and "x \<in> set (out s)"
  shows "\<exists>c\<in>set ids. x \<in> set (daemon c) \<and> map_option lbl x = Some c
            \<and> (\<forall>c'\<in>set ids. x \<in> set (daemon c') \<longrightarrow> c' = c)"
proof -
  let ?init = "logStatsForContainers daemon ids"
  have "mset (out ?init) + in_flight (tasks ?init) = mset (nonnil (concat (map daemon ids)))"
    by (simp add: logStatsForContainers_def in_flight_init)
  with run_no_gain[OF assms(2)] have "mset (out s) \<subseteq># mset (nonnil (concat (map daemon ids)))"
    by (metis mset_subset_eq_add_left subset_mset.order_trans)
  then have "set (out s) \<subseteq> set (nonnil (concat (map daemon ids)))"
    by (metis set_mset_mono set_mset_mset)
  with assms(3) have "x \<in> set (concat (map daemon ids))" and "x \<noteq> None"
    by (auto simp: set_nonnil)
  then obtain c v where c: "c \<in> set ids" "x \<in> set (daemon c)" and v: "x = Some v" by auto
  from labelled_lbl[OF assms(1) c(1), of v] c(2) v have l: "lbl v = c" by simp
  have "c' = c" if "c' \<in> set ids" "x \<in> set (daemon c')" for c'
    using labelled_lbl[OF assms(1) that(1), of v] that(2) v l by simp
  then have "\<forall>c'\<in>set ids. x \<in> set (daemon c') \<longrightarrow> c' = c" by blast
  moreover have "map_option lbl x = Some c" using v l by simp
  ultimately show ?thesis using c by blast
qed

definition re_prov :: "(string \<Rightarrow> 'a option list list) \<Rightarrow> ('a \<Rightarrow> string) \<Rightarrow> 'a recollector \<Rightarrow> bool" where
  "re_prov streams lbl s =
     (\<forall>x\<in>set (out s). \<exists>c\<in>set (map re_id (tasks s)).
         x \<in> set (concat (streams c)) \<and> map_option lbl x = Some c)"

lemma restep_out:
  assumes "restep a s = Some s'"
  shows "out s' = out s
         \<or> (\<exists>i x. a = RHandoff i \<and> i < length (tasks s) \<and> re_pc (tasks s ! i) = RSending x
                 \<and> out s' = fprintf_stat (out s) x)"
  using assms
  by (cases a) (auto split: if_splits subscription.splits list.splits option.splits refwd.splits)

lemma restep_re_prov:
  assumes st: "restep a s = Some s'"
    and lab: "labelled (\<lambda>c. concat (streams c)) lbl (map re_id (tasks s))"
    and inv: "re_inv streams lbl s" and p: "re_prov streams lbl s"
  shows "re_prov streams lbl s'"
proof -
  have ids: "map re_id (tasks s') = map re_id (tasks s)" by (rule restep_re_ids[OF st])
  from restep_out[OF st] show ?thesis
  proof
    assume "out s' = out s"
    with p ids show ?thesis by (simp add: re_prov_def)
  next
    assume "\<exists>i x. a = RHandoff i \<and> i < length (tasks s) \<and> re_pc (tasks s ! i) = RSending x
                 \<and> out s' = fprintf_stat (out s) x"
    then obtain i x where i: "i < length (tasks s)" and x: "re_pc (tasks s ! i) = RSending x"
      and o: "out s' = fprintf_stat (out s) x"
      by blast
    show ?thesis
    proof (cases x)
      case None
      with o p ids show ?thesis by (simp add: re_prov_def fprintf_stat_def)
    next
      case (Some v)
      let ?c = "re_id (tasks s ! i)"
      have "Some v \<in> set (trail lbl s i)"
        using x Some by (simp add: trail_def re_owed_def nonnil_def)
      moreover from inv i have "subseq (trail lbl s i) (nonnil (concat (streams ?c)))"
        by (simp add: re_inv_def)
      ultimately have "Some v \<in> set (nonnil (concat (streams ?c)))"
        using subseq_set by blast
      then have 1: "Some v \<in> set (concat (streams ?c))" by (simp add: set_nonnil)
      have 2: "?c \<in> set (map re_id (tasks s))" using i by simp
      from re_inv_own[OF inv lab i x] Some have 3: "map_option lbl (Some v) = Some ?c" by simp
      have "out s' = out s @ [Some v]" using o Some by (simp add: fprintf_stat_def)
      then have o': "set (out s') = insert (Some v) (set (out s))" by simp
      have "\<exists>c\<in>set (map re_id (tasks s')). y \<in> set (concat (streams c)) \<and> map_option lbl y = Some c"
        if y: "y \<in> set (out s')" for y
      proof (cases "y = Some v")
        case True
        from 1 2 3 show ?thesis unfolding True ids by (rule_tac x = ?c in bexI) simp_all
      next
        case False
        with y o' have "y \<in> set (out s)" by simp
        with p show ?thesis unfolding ids re_prov_def by blast
      qed
      then show ?thesis unfolding re_prov_def by blast
    qed
  qed
qed

text \<open>
  What forwarder \<open>i\<close> of \<^verbatim>\<open>src/main.go\<close> receives in one reaction: the non-nil value that
  \<^verbatim>\<open>case stat := <-contStats\<close> yields, which it logs and goes on to send. \<open>received_in\<close>
  collects these along a schedule.
\<close>

fun took :: "nat \<Rightarrow> reaction \<Rightarrow> 'a recollector \<Rightarrow> 'a option list" where
  "took i (RRecv k) s =
     (if k = i \<and> i < length (tasks s) \<and> re_pc (tasks s ! i) = RSelecting \<and> subs (tasks s ! i) \<noteq> [] then
        (case last (subs (tasks s ! i)) of
           Subscribed (Some v # xs) \<Rightarrow> [Some v]
         | _ \<Rightarrow> [])
      else [])"
| "took i _ s = []"

fun received_in :: "nat \<Rightarrow> reaction list \<Rightarrow> 'a recollector \<Rightarrow> 'a option list" where
  "received_in i [] s = []"
| "received_in i (a # as) s =
     took i a s @ (case restep a s of None \<Rightarrow> [] | Some s' \<Rightarrow> received_in i as s')"

lemma re_ids_neq:
  assumes "distinct (map re_id ts)" "i < length ts" "j < length ts" "i \<noteq> j"
  shows "re_id (ts ! i) \<noteq> re_id (ts ! j)"
  using assms by (metis length_map nth_eq_iff_index_eq nth_map)

lemma restep_received:
  assumes st: "restep a s = Some s'"
    and dist: "distinct (map re_id (tasks s))"
    and own: "\<forall>i<length (tasks s). \<forall>x. re_pc (tasks s ! i) = RSending x \<longrightarrow>
                x = None \<or> map_option lbl x = Some (re_id (tasks s ! i))"
    and i: "i < length (tasks s)"
  shows "written_of lbl (re_id (tasks s ! i)) (out s') @ nonnil (re_held (re_pc (tasks s' ! i)))
         = written_of lbl (re_id (tasks s ! i)) (out s) @ nonnil (re_held (re_pc (tasks s ! i)))
           @ took i a s"
proof (cases a)
  case (RHandoff k)
  with st obtain x where k: "k < length (tasks s)" and x: "re_pc (tasks s ! k) = RSending x"
    and s': "s' = set_task k ((tasks s ! k)\<lparr>re_pc := RPushing\<rparr>) (s\<lparr>out := fprintf_stat (out s) x\<rparr>)"
    by (auto split: if_splits refwd.splits)
  from own k x have lab: "x = None \<or> map_option lbl x = Some (re_id (tasks s ! k))" by blast
  show ?thesis
  proof (cases "k = i")
    case True
    with written_of_fprintf_own[OF lab] x i RHandoff show ?thesis by (simp add: s')
  next
    case False
    with re_ids_neq[OF dist k i] have "re_id (tasks s ! k) \<noteq> re_id (tasks s ! i)" by simp
    with lab have "x = None \<or> map_option lbl x \<noteq> Some (re_id (tasks s ! i))" by auto
    from written_of_fprintf_other[OF this] False RHandoff show ?thesis by (simp add: s')
  qed
next
  case (RRecv k)
  with st i show ?thesis
    by (cases "k = i")
      (auto simp: nonnil_def split: if_splits subscription.splits list.splits option.splits)
qed (use st i in \<open>auto simp: nth_list_update split: if_splits subscription.splits\<close>)

lemma restep_received_count:
  assumes st: "restep a s = Some s'"
    and dist: "distinct (map re_id (tasks s))"
    and i: "i < length (tasks s)"
  shows "count_list (logs s') (Received (re_id (tasks s ! i)))
         = count_list (logs s) (Received (re_id (tasks s ! i))) + length (took i a s)"
proof (cases a)
  case (RRecv k)
  show ?thesis
  proof (cases "k = i")
    case True
    with RRecv st i show ?thesis
      by (auto split: if_splits subscription.splits list.splits option.splits)
  next
    case False
    have "re_id (tasks s ! k) \<noteq> re_id (tasks s ! i)" if "k < length (tasks s)"
      using re_ids_neq[OF dist that i False] .
    with False RRecv st i show ?thesis
      by (auto split: if_splits subscription.splits list.splits option.splits)
  qed
next
  case (RStart k)
  with st show ?thesis by (auto split: if_splits)
qed (use st in \<open>auto split: if_splits subscription.splits refwd.splits\<close>)

lemma rerun_re_prov:
  assumes "rerun as s = Some r"
    and "distinct (map re_id (tasks s))"
    and "labelled (\<lambda>c. concat (streams c)) lbl (map re_id (tasks s))"
    and "re_inv streams lbl s" and "re_prov streams lbl s"
  shows "re_prov streams lbl r"
  using assms
proof (induction as arbitrary: s)
  case Nil
  then show ?case by simp
next
  case (Cons a as)
  then obtain s1 where 1: "restep a s = Some s1" and 2: "rerun as s1 = Some r"
    by (auto split: option.splits)
  have ids: "map re_id (tasks s1) = map re_id (tasks s)" by (rule restep_re_ids[OF 1])
  have inv1: "re_inv streams lbl s1" by (rule restep_re_inv[OF 1 Cons.prems(2,3,4)])
  have p1: "re_prov streams lbl s1" by (rule restep_re_prov[OF 1 Cons.prems(3,4,5)])
  from Cons.IH[OF 2 _ _ inv1 p1] ids Cons.prems(2,3) show ?case by simp
qed

lemma rerun_received:
  assumes "rerun as s = Some r"
    and "distinct (map re_id (tasks s))"
    and "labelled (\<lambda>c. concat (streams c)) lbl (map re_id (tasks s))"
    and "re_inv streams lbl s"
    and "i < length (tasks s)"
  shows "written_of lbl (re_id (tasks s ! i)) (out r) @ nonnil (re_held (re_pc (tasks r ! i)))
           = written_of lbl (re_id (tasks s ! i)) (out s) @ nonnil (re_held (re_pc (tasks s ! i)))
             @ received_in i as s
         \<and> count_list (logs r) (Received (re_id (tasks s ! i)))
           = count_list (logs s) (Received (re_id (tasks s ! i))) + length (received_in i as s)"
  using assms
proof (induction as arbitrary: s)
  case Nil
  then show ?case by simp
next
  case (Cons a as)
  then obtain s1 where 1: "restep a s = Some s1" and 2: "rerun as s1 = Some r"
    by (auto split: option.splits)
  have ids: "map re_id (tasks s1) = map re_id (tasks s)" by (rule restep_re_ids[OF 1])
  then have len: "length (tasks s1) = length (tasks s)" by (metis length_map)
  have c: "re_id (tasks s1 ! i) = re_id (tasks s ! i)"
    using ids len Cons.prems(5) by (metis nth_map)
  have inv1: "re_inv streams lbl s1" by (rule restep_re_inv[OF 1 Cons.prems(2,3,4)])
  have own: "\<forall>i<length (tasks s). \<forall>x. re_pc (tasks s ! i) = RSending x \<longrightarrow>
                x = None \<or> map_option lbl x = Some (re_id (tasks s ! i))"
    using re_inv_own[OF Cons.prems(4,3)] by blast
  note a = restep_received[OF 1 Cons.prems(2) own Cons.prems(5)]
  note b = restep_received_count[OF 1 Cons.prems(2,5)]
  from Cons.IH[OF 2 _ _ inv1] ids len Cons.prems(2,3,5) c
  have ih: "written_of lbl (re_id (tasks s ! i)) (out r) @ nonnil (re_held (re_pc (tasks r ! i)))
           = written_of lbl (re_id (tasks s ! i)) (out s1) @ nonnil (re_held (re_pc (tasks s1 ! i)))
             @ received_in i as s1"
    "count_list (logs r) (Received (re_id (tasks s ! i)))
           = count_list (logs s1) (Received (re_id (tasks s ! i))) + length (received_in i as s1)"
    by simp_all
  from ih(1) a have "written_of lbl (re_id (tasks s ! i)) (out r) @ nonnil (re_held (re_pc (tasks r ! i)))
           = written_of lbl (re_id (tasks s ! i)) (out s) @ nonnil (re_held (re_pc (tasks s ! i)))
             @ took i a s @ received_in i as s1"
    by (metis append.assoc)
  moreover from ih(2) b have "count_list (logs r) (Received (re_id (tasks s ! i)))
           = count_list (logs s) (Received (re_id (tasks s ! i))) + length (took i a s @ received_in i as s1)"
    by simp
  ultimately show ?case using 1 by simp
qed

lemma init_re_prov: "re_prov streams lbl (statsForContainers streams ids)"
  by (simp add: re_prov_def statsForContainers_def)

lemma re_held_le_one: "length (re_held p) \<le> 1"
  by (cases p) simp_all

lemma reached_received:
  assumes d: "distinct ids" and lab: "labelled (\<lambda>c. concat (streams c)) lbl ids"
    and r: "rerun bs (statsForContainers streams ids) = Some r" and i: "i < length ids"
  shows "re_id (tasks r ! i) = ids ! i
         \<and> received_in i bs (statsForContainers streams ids)
             = written_of lbl (ids ! i) (out r) @ nonnil (re_held (re_pc (tasks r ! i)))
         \<and> length (received_in i bs (statsForContainers streams ids))
             = count_list (logs r) (Received (ids ! i))
         \<and> subseq (received_in i bs (statsForContainers streams ids))
                  (nonnil (concat (streams (ids ! i))))
         \<and> subseq (written_of lbl (ids ! i) (out r)) (nonnil (concat (streams (ids ! i))))"
proof -
  let ?init = "statsForContainers streams ids"
  have lab': "labelled (\<lambda>c. concat (streams c)) lbl (map re_id (tasks ?init))"
    using lab by (simp add: init_re_ids)
  have d': "distinct (map re_id (tasks ?init))" using d by (simp add: init_re_ids)
  have i': "i < length (tasks ?init)" using i by (simp add: statsForContainers_def)
  have c0: "re_id (tasks ?init ! i) = ids ! i" using i by (simp add: statsForContainers_def)
  from rerun_re_inv[OF r d' lab' init_re_inv]
  have inv: "re_inv streams lbl r" and ids: "map re_id (tasks r) = ids"
    by (simp_all add: init_re_ids)
  from ids have len: "length (tasks r) = length ids" by (metis length_map)
  have c: "re_id (tasks r ! i) = ids ! i" using ids len i by (metis nth_map)
  have w0: "written_of lbl (ids ! i) (out ?init) = []" "re_pc (tasks ?init ! i) = RSpawned"
    "logs ?init = []"
    using i by (simp_all add: statsForContainers_def written_of_def)
  from rerun_received[OF r d' lab' init_re_inv i'] c0 w0
  have eq: "received_in i bs ?init
              = written_of lbl (ids ! i) (out r) @ nonnil (re_held (re_pc (tasks r ! i)))"
    and cnt: "length (received_in i bs ?init) = count_list (logs r) (Received (ids ! i))"
    by simp_all
  from inv i len have tr: "subseq (trail lbl r i) (nonnil (concat (streams (re_id (tasks r ! i)))))"
    by (simp add: re_inv_def)
  have "prefix (received_in i bs ?init) (trail lbl r i)"
    unfolding eq trail_def re_owed_def c by (simp add: nonnil_append)
  then have "subseq (received_in i bs ?init) (trail lbl r i)" by (rule prefix_imp_subseq)
  with tr c have s1: "subseq (received_in i bs ?init) (nonnil (concat (streams (ids ! i))))"
    using subseq_order.order_trans by metis
  from written_subseq_trail[of lbl r i] tr c
  have s2: "subseq (written_of lbl (ids ! i) (out r)) (nonnil (concat (streams (ids ! i))))"
    using subseq_order.order_trans by metis
  from c eq cnt s1 s2 show ?thesis by simp
qed

lemma reached_provenance:
  assumes d: "distinct ids" and lab: "labelled (\<lambda>c. concat (streams c)) lbl ids"
    and r: "rerun bs (statsForContainers streams ids) = Some r" and x: "x \<in> set (out r)"
  shows "\<exists>c\<in>set ids. x \<in> set (concat (streams c)) \<and> map_option lbl x = Some c
            \<and> (\<forall>c'\<in>set ids. x \<in> set (concat (streams c')) \<longrightarrow> c' = c)"
proof -
  let ?init = "statsForContainers streams ids"
  have lab': "labelled (\<lambda>c. concat (streams c)) lbl (map re_id (tasks ?init))"
    using lab by (simp add: init_re_ids)
  have d': "distinct (map re_id (tasks ?init))" using d by (simp add: init_re_ids)
  have "re_prov streams lbl r" by (rule rerun_re_prov[OF r d' lab' init_re_inv init_re_prov])
  with x have "\<exists>c\<in>set (map re_id (tasks r)). x \<in> set (concat (streams c)) \<and> map_option lbl x = Some c"
    unfolding re_prov_def by blast
  moreover from rerun_re_inv[OF r d' lab' init_re_inv] have "map re_id (tasks r) = ids"
    by (simp add: init_re_ids)
  ultimately obtain c where c: "c \<in> set ids" "x \<in> set (concat (streams c))" "map_option lbl x = Some c"
    by metis
  then obtain v where v: "x = Some v" "lbl v = c" by auto
  have "c' = c" if "c' \<in> set ids" "x \<in> set (concat (streams c'))" for c'
    using labelled_lbl[OF lab that(1), of v] that(2) v by simp
  with c show ?thesis by blast
qed

text \<open>
  C2, as the code has it, for containers with distinct identifiers whose snapshot
  values name their container (\<open>labelled\<close>). In every configuration that
  \<open>logStatsForContainers\<close> reaches:
  \<^item> every record in the sink is a snapshot of the stream of exactly one container;
  \<^item> the non-nil snapshots forwarder \<open>i\<close> has received are, in arrival order, the
    records of its container in the sink, followed by the one value the forwarder may
    still hold: each received snapshot is written once or is the one being held, and
    the written ones form an initial segment of the container's stream;
  \<^item> handing a snapshot over appends exactly that record to the sink, and the forwarder
    no longer holds it.
  In every configuration that \<open>statsForContainers\<close> of \<^verbatim>\<open>src/main.go\<close> reaches along a
  schedule \<open>bs\<close>:
  \<^item> every record in the sink is a snapshot of a stream served to exactly one container;
  \<^item> the snapshots forwarder \<open>i\<close> has received along \<open>bs\<close>, one for each of its
    \<open>Received\<close> lines, are, in arrival order, the records of its container in the sink,
    followed by the one value the forwarder may still hold;
  \<^item> they are, in order, among what the daemon serves to the container's subscriptions
    (a subscription that is abandoned keeps what it had still to send), and so are the
    records of the container in the sink;
  \<^item> handing a snapshot over appends exactly that record to the sink, and the forwarder
    no longer holds it.
  A snapshot that its forwarder still holds when the merge loop returns is written
  zero times, not once; nothing is said about the order across containers.
\<close>

theorem snapshots_written_in_arrival_order:
  assumes "distinct ids"
  shows "(labelled daemon lbl ids \<and> run as (logStatsForContainers daemon ids) = Some s \<longrightarrow>
            (\<forall>x\<in>set (out s). \<exists>c\<in>set ids. x \<in> set (daemon c) \<and> map_option lbl x = Some c
                                  \<and> (\<forall>c'\<in>set ids. x \<in> set (daemon c') \<longrightarrow> c' = c))
            \<and> (\<forall>i<length ids.
                  cont_id (tasks s ! i) = ids ! i
                  \<and> nonnil (received_from daemon s (ids ! i))
                      = written_of lbl (ids ! i) (out s) @ nonnil (held (pc (tasks s ! i)))
                  \<and> length (held (pc (tasks s ! i))) \<le> 1
                  \<and> prefix (written_of lbl (ids ! i) (out s)) (nonnil (daemon (ids ! i)))))
       \<and> (j < length (tasks s0) \<and> pc (tasks s0 ! j) = Sending (Some v) \<and> merger s0 = Merging \<longrightarrow>
            (\<exists>s1. step (Handoff j) s0 = Some s1 \<and> out s1 = out s0 @ [Some v]
                 \<and> held (pc (tasks s1 ! j)) = []))
       \<and> (labelled (\<lambda>c. concat (streams c)) lbl ids
            \<and> rerun bs (statsForContainers streams ids) = Some r \<longrightarrow>
            (\<forall>x\<in>set (out r). \<exists>c\<in>set ids. x \<in> set (concat (streams c)) \<and> map_option lbl x = Some c
                                  \<and> (\<forall>c'\<in>set ids. x \<in> set (concat (streams c')) \<longrightarrow> c' = c))
            \<and> (\<forall>i<length ids.
                  re_id (tasks r ! i) = ids ! i
                  \<and> received_in i bs (statsForContainers streams ids)
                      = written_of lbl (ids ! i) (out r) @ nonnil (re_held (re_pc (tasks r ! i)))
                  \<and> length (re_held (re_pc (tasks r ! i))) \<le> 1
                  \<and> length (received_in i bs (statsForContainers streams ids))
                      = count_list (logs r) (Received (ids ! i))
                  \<and> subseq (received_in i bs (statsForContainers streams ids))
                           (nonnil (concat (streams (ids ! i))))
                  \<and> subseq (written_of lbl (ids ! i) (out r)) (nonnil (concat (streams (ids ! i))))))
       \<and> (k < length (tasks r0) \<and> re_pc (tasks r0 ! k) = RSending (Some w) \<and> merger r0 = Merging \<longrightarrow>
            (\<exists>r1. restep (RHandoff k) r0 = Some r1 \<and> out r1 = out r0 @ [Some w]
                 \<and> re_held (re_pc (tasks r1 ! k)) = []))"
proof (intro conjI impI)
  assume a: "labelled daemon lbl ids \<and> run as (logStatsForContainers daemon ids) = Some s"
  then have lab: "labelled daemon lbl ids" and r: "run as (logStatsForContainers daemon ids) = Some s"
    by simp_all
  show "\<forall>x\<in>set (out s). \<exists>c\<in>set ids. x \<in> set (daemon c) \<and> map_option lbl x = Some c
                                  \<and> (\<forall>c'\<in>set ids. x \<in> set (daemon c') \<longrightarrow> c' = c)"
    using written_provenance[OF lab r] by blast
  show "\<forall>i<length ids.
          cont_id (tasks s ! i) = ids ! i
          \<and> nonnil (received_from daemon s (ids ! i))
              = written_of lbl (ids ! i) (out s) @ nonnil (held (pc (tasks s ! i)))
          \<and> length (held (pc (tasks s ! i))) \<le> 1
          \<and> prefix (written_of lbl (ids ! i) (out s)) (nonnil (daemon (ids ! i)))"
  proof (intro allI impI)
    fix i assume i: "i < length ids"
    from reached_task_inv[OF assms lab r i]
    have c: "cont_id (tasks s ! i) = ids ! i" and inv: "task_inv daemon lbl s i" by simp_all
    from inv c have eq: "nonnil (received_from daemon s (ids ! i))
                         = written_of lbl (ids ! i) (out s) @ nonnil (held (pc (tasks s ! i)))"
      by (simp add: task_inv_def)
    have "prefix (nonnil (received_from daemon s (ids ! i))) (nonnil (daemon (ids ! i)))"
      unfolding nonnil_def received_from_def by (rule filter_mono_prefix) (rule take_is_prefix)
    with eq have "prefix (written_of lbl (ids ! i) (out s)) (nonnil (daemon (ids ! i)))"
      by (metis append_prefixD)
    with c eq held_le_one
    show "cont_id (tasks s ! i) = ids ! i
          \<and> nonnil (received_from daemon s (ids ! i))
              = written_of lbl (ids ! i) (out s) @ nonnil (held (pc (tasks s ! i)))
          \<and> length (held (pc (tasks s ! i))) \<le> 1
          \<and> prefix (written_of lbl (ids ! i) (out s)) (nonnil (daemon (ids ! i)))"
      by blast
  qed
next
  assume "j < length (tasks s0) \<and> pc (tasks s0 ! j) = Sending (Some v) \<and> merger s0 = Merging"
  then show "\<exists>s1. step (Handoff j) s0 = Some s1 \<and> out s1 = out s0 @ [Some v]
                 \<and> held (pc (tasks s1 ! j)) = []"
    by (simp add: fprintf_stat_def)
next
  assume b: "labelled (\<lambda>c. concat (streams c)) lbl ids
             \<and> rerun bs (statsForContainers streams ids) = Some r"
  then have lab: "labelled (\<lambda>c. concat (streams c)) lbl ids"
    and r: "rerun bs (statsForContainers streams ids) = Some r"
    by simp_all
  show "\<forall>x\<in>set (out r). \<exists>c\<in>set ids. x \<in> set (concat (streams c)) \<and> map_option lbl x = Some c
                                  \<and> (\<forall>c'\<in>set ids. x \<in> set (concat (streams c')) \<longrightarrow> c' = c)"
    using reached_provenance[OF assms lab r] by blast
  show "\<forall>i<length ids.
          re_id (tasks r ! i) = ids ! i
          \<and> received_in i bs (statsForContainers streams ids)
              = written_of lbl (ids ! i) (out r) @ nonnil (re_held (re_pc (tasks r ! i)))
          \<and> length (re_held (re_pc (tasks r ! i))) \<le> 1
          \<and> length (received_in i bs (statsForContainers streams ids))
              = count_list (logs r) (Received (ids ! i))
          \<and> subseq (received_in i bs (statsForContainers streams ids))
                   (nonnil (concat (streams (ids ! i))))
          \<and> subseq (written_of lbl (ids ! i) (out r)) (nonnil (concat (streams (ids ! i))))"
    using reached_received[OF assms lab r] re_held_le_one by blast
next
  assume "k < length (tasks r0) \<and> re_pc (tasks r0 ! k) = RSending (Some w) \<and> merger r0 = Merging"
  then show "\<exists>r1. restep (RHandoff k) r0 = Some r1 \<and> out r1 = out r0 @ [Some w]
                 \<and> re_held (re_pc (tasks r1 ! k)) = []"
    by (simp add: fprintf_stat_def)
qed

text \<open>
  In the scenario the snapshot values name their container: those below 20 come from
  \<open>c1\<close>, the others from \<open>c2\<close>.
\<close>

definition by_tens :: "nat \<Rightarrow> string" where
  "by_tens v = (if v < 20 then ''c1'' else ''c2'')"

text \<open>
  For \<^verbatim>\<open>src/main.go\<close>: the daemon serves two streams to the subscriptions to \<open>c1\<close> and
  one to those to \<open>c2\<close>.
\<close>

definition served :: "string \<Rightarrow> nat option list list" where
  "served c =
     (if c = ''c1'' then [[Some 11, Some 12], [Some 13]]
      else if c = ''c2'' then [[Some 21]]
      else [])"

definition mid_run :: "nat collector" where
  "mid_run =
     \<lparr>ctxDone = False,
      tasks = [\<lparr>cont_id = ''c1'', contStats = Streaming [Some 13, Some 14, Some 15], pc = Sending (Some 12)\<rparr>,
               \<lparr>cont_id = ''c2'', contStats = Streaming [Some 23, Some 24, Some 25], pc = Selecting\<rparr>],
      merger = Merging,
      out = [Some 21, Some 11, Some 22],
      logs = [Listening ''c1'', Listening ''c2'', Received ''c2'', Received ''c1'', Received ''c2'',
              Received ''c1'']\<rparr>"

definition resubscribed :: "nat recollector" where
  "resubscribed =
     \<lparr>ctxDone = False,
      tasks = [\<lparr>re_id = ''c1'', re_pc = RPushing, subscribeAgain = False,
                subs = [Subscribed [Some 12], Subscribed []], feed = []\<rparr>,
               \<lparr>re_id = ''c2'', re_pc = RPushing, subscribeAgain = False,
                subs = [Subscribed []], feed = []\<rparr>],
      merger = Merging,
      out = [Some 11, Some 21, Some 13],
      logs = [Listening ''c1'', Listening ''c2'', ListeningForMore, ListeningForMore,
              Received ''c1'', ListeningForMore, Received ''c2'', Received ''c1'']\<rparr>"

lemma mid_run_reached:
  "run [FwdStart 0, FwdStart 1, FwdRecv 1, Handoff 1, FwdRecv 0, Handoff 0, FwdRecv 1, Handoff 1, FwdRecv 0]
     (logStatsForContainers two_by_five [''c1'', ''c2'']) = Some mid_run"
  by (simp add: logStatsForContainers_def two_by_five_def mid_run_def fprintf_stat_def)

lemma resubscribed_reached:
  "rerun [RStart 0, RStart 1, RSubscribe 0, RSubscribe 1, RRecv 0, RHandoff 0, RPush 0, RSubscribe 0,
          RRecv 1, RHandoff 1, RRecv 0, RHandoff 0]
     (statsForContainers served [''c1'', ''c2'']) = Some resubscribed"
  by (simp add: statsForContainers_def served_def resubscribed_def fprintf_stat_def set_task_def)

theorem snapshots_written_in_arrival_order_witness:
  "distinct [''c1'', ''c2'']
   \<and> labelled two_by_five by_tens [''c1'', ''c2'']
   \<and> run [FwdStart 0, FwdStart 1, FwdRecv 1, Handoff 1, FwdRecv 0, Handoff 0, FwdRecv 1, Handoff 1, FwdRecv 0]
        (logStatsForContainers two_by_five [''c1'', ''c2'']) = Some mid_run
   \<and> nonnil (received_from two_by_five mid_run ''c1'')
       = written_of by_tens ''c1'' (out mid_run) @ nonnil (held (pc (tasks mid_run ! 0)))
   \<and> nonnil (received_from two_by_five mid_run ''c1'') = [Some 11, Some 12]
   \<and> written_of by_tens ''c1'' (out mid_run) = [Some 11]
   \<and> held (pc (tasks mid_run ! 0)) = [Some 12]
   \<and> nonnil (received_from two_by_five mid_run ''c2'') = [Some 21, Some 22]
   \<and> written_of by_tens ''c2'' (out mid_run) = [Some 21, Some 22]
   \<and> held (pc (tasks mid_run ! 1)) = []
   \<and> labelled (\<lambda>c. concat (served c)) by_tens [''c1'', ''c2'']
   \<and> rerun [RStart 0, RStart 1, RSubscribe 0, RSubscribe 1, RRecv 0, RHandoff 0, RPush 0, RSubscribe 0,
             RRecv 1, RHandoff 1, RRecv 0, RHandoff 0]
        (statsForContainers served [''c1'', ''c2'']) = Some resubscribed
   \<and> received_in 0
        [RStart 0, RStart 1, RSubscribe 0, RSubscribe 1, RRecv 0, RHandoff 0, RPush 0, RSubscribe 0,
         RRecv 1, RHandoff 1, RRecv 0, RHandoff 0]
        (statsForContainers served [''c1'', ''c2''])
       = written_of by_tens ''c1'' (out resubscribed) @ nonnil (re_held (re_pc (tasks resubscribed ! 0)))
   \<and> written_of by_tens ''c1'' (out resubscribed) = [Some 11, Some 13]
   \<and> re_held (re_pc (tasks resubscribed ! 0)) = []
   \<and> count_list (logs resubscribed) (Received ''c1'') = 2
   \<and> nonnil (concat (served ''c1'')) = [Some 11, Some 12, Some 13]
   \<and> subseq (written_of by_tens ''c1'' (out resubscribed)) (nonnil (concat (served ''c1'')))"
proof -
  have d: "distinct [''c1'', ''c2'']" by simp
  have l1: "labelled two_by_five by_tens [''c1'', ''c2'']"
    by (simp add: labelled_def two_by_five_def by_tens_def)
  have l2: "labelled (\<lambda>c. concat (served c)) by_tens [''c1'', ''c2'']"
    by (simp add: labelled_def served_def by_tens_def)
  have vals: "nonnil (received_from two_by_five mid_run ''c1'') = [Some 11, Some 12]"
    "written_of by_tens ''c1'' (out mid_run) = [Some 11]"
    "held (pc (tasks mid_run ! 0)) = [Some 12]"
    "nonnil (received_from two_by_five mid_run ''c2'') = [Some 21, Some 22]"
    "written_of by_tens ''c2'' (out mid_run) = [Some 21, Some 22]"
    "held (pc (tasks mid_run ! 1)) = []"
    "written_of by_tens ''c1'' (out resubscribed) = [Some 11, Some 13]"
    "re_held (re_pc (tasks resubscribed ! 0)) = []"
    "count_list (logs resubscribed) (Received ''c1'') = 2"
    "nonnil (concat (served ''c1'')) = [Some 11, Some 12, Some 13]"
    by (simp_all add: received_from_def mid_run_def resubscribed_def two_by_five_def served_def
        written_of_def by_tens_def nonnil_def)
  note inst = snapshots_written_in_arrival_order[OF d, of two_by_five by_tens
      "[FwdStart 0, FwdStart 1, FwdRecv 1, Handoff 1, FwdRecv 0, Handoff 0, FwdRecv 1, Handoff 1, FwdRecv 0]"
      mid_run _ _ _ served
      "[RStart 0, RStart 1, RSubscribe 0, RSubscribe 1, RRecv 0, RHandoff 0, RPush 0, RSubscribe 0,
        RRecv 1, RHandoff 1, RRecv 0, RHandoff 0]" resubscribed]
  note a = inst[THEN conjunct1, THEN mp, OF conjI[OF l1 mid_run_reached], THEN conjunct2,
      THEN spec, of 0]
  then have first: "nonnil (received_from two_by_five mid_run ''c1'')
                    = written_of by_tens ''c1'' (out mid_run) @ nonnil (held (pc (tasks mid_run ! 0)))"
    by simp
  note b = inst[THEN conjunct2, THEN conjunct2, THEN conjunct1, THEN mp,
      OF conjI[OF l2 resubscribed_reached], THEN conjunct2, THEN spec, of 0]
  then have second: "received_in 0
        [RStart 0, RStart 1, RSubscribe 0, RSubscribe 1, RRecv 0, RHandoff 0, RPush 0, RSubscribe 0,
         RRecv 1, RHandoff 1, RRecv 0, RHandoff 0]
        (statsForContainers served [''c1'', ''c2''])
       = written_of by_tens ''c1'' (out resubscribed) @ nonnil (re_held (re_pc (tasks resubscribed ! 0)))"
    and third: "subseq (written_of by_tens ''c1'' (out resubscribed)) (nonnil (concat (served ''c1'')))"
    by simp_all
  from d l1 l2 mid_run_reached resubscribed_reached vals first second third show ?thesis
    by (simp only: simp_thms)
qed

text \<open>
  The claim as written fails for a snapshot caught by the cancellation: in this run of
  \<open>statsForContainers\<close> the forwarder of \<open>c1\<close> has received snapshot \<open>11\<close> (and printed
  its \<open>Received\<close> line), the signal fires and the merge loop returns. The snapshot is
  written zero times, and nothing can write it later.
\<close>

theorem received_snapshot_never_written:
  "rerun [RStart 0, RSubscribe 0, RRecv 0, RCancel, RMergeDone] (statsForContainers served [''c1''])
     = Some \<lparr>ctxDone = True,
             tasks = [\<lparr>re_id = ''c1'', re_pc = RSending (Some 11), subscribeAgain = False,
                       subs = [Subscribed [Some 12]], feed = [[Some 13]]\<rparr>],
             merger = Returned, out = [],
             logs = [Listening ''c1'', ListeningForMore, Received ''c1'']\<rparr>
   \<and> restep (RHandoff 0)
        \<lparr>ctxDone = True,
         tasks = [\<lparr>re_id = ''c1'', re_pc = RSending (Some 11), subscribeAgain = False,
                   subs = [Subscribed [Some 12]], feed = [[Some 13]]\<rparr>],
         merger = Returned, out = [],
         logs = [Listening ''c1'', ListeningForMore, Received ''c1'']\<rparr> = None"
  by (simp add: statsForContainers_def served_def set_task_def)

section \<open>C4: a closed stream and its forwarder\<close>

text \<open>
  Before the cancellation signal fires a forwarder returns in one way only, through the
  receive on its closed channel, so every forwarder that has returned has printed its
  \<^verbatim>\<open>no longer streaming\<close> line.
\<close>

definition exits_logged :: "'a collector \<Rightarrow> bool" where
  "exits_logged s =
     (ctxDone s
      \<or> list_all (\<lambda>t. pc t = Exited \<longrightarrow> NoLongerStreaming (cont_id t) \<in> set (logs s)) (tasks s))"

lemma list_all_mono_update:
  assumes "list_all P ts" "\<And>t. P t \<Longrightarrow> Q t" "Q u"
  shows "list_all Q (ts[i := u])"
  using assms by (auto simp: list_all_iff dest!: set_update_subset_insert[THEN subsetD])

lemma step_exits_logged: "exits_logged s \<Longrightarrow> step a s = Some s' \<Longrightarrow> exits_logged s'"
proof -
  assume inv: "exits_logged s" and st: "step a s = Some s'"
  show ?thesis
  proof (cases "ctxDone s")
    case True
    with step_ctxDone_mono[OF st] show ?thesis by (simp add: exits_logged_def)
  next
    case False
    with inv have all: "list_all (\<lambda>t. pc t = Exited \<longrightarrow> NoLongerStreaming (cont_id t) \<in> set (logs s)) (tasks s)"
      by (simp add: exits_logged_def)
    show ?thesis
    proof (cases a)
      case Cancel
      with st show ?thesis by (auto simp: exits_logged_def)
    next
      case MergeDone
      with st False show ?thesis by (auto split: if_splits)
    next
      case (FwdDone i)
      with st False show ?thesis by (auto split: if_splits)
    next
      case (StreamEnd i)
      with st False obtain xs where i: "i < length (tasks s)"
        and s': "s' = s\<lparr>tasks := (tasks s)[i := (tasks s ! i)\<lparr>contStats := Closed\<rparr>]\<rparr>"
        by (auto split: if_splits source.splits)
      have "list_all (\<lambda>t. pc t = Exited \<longrightarrow> NoLongerStreaming (cont_id t) \<in> set (logs s))
              ((tasks s)[i := (tasks s ! i)\<lparr>contStats := Closed\<rparr>])"
        using all list_all_nth[OF all i]
        by (intro list_all_mono_update[where P = "\<lambda>t. pc t = Exited \<longrightarrow> NoLongerStreaming (cont_id t) \<in> set (logs s)"]) simp_all
      then show ?thesis by (simp add: s' exits_logged_def)
    next
      case (FwdStart i)
      with st obtain i': "i < length (tasks s)"
        and s': "s' = s\<lparr>tasks := (tasks s)[i := (tasks s ! i)\<lparr>pc := Selecting\<rparr>],
                     logs := logs s @ [Listening (cont_id (tasks s ! i))]\<rparr>"
        by (auto split: if_splits)
      have "list_all (\<lambda>t. pc t = Exited \<longrightarrow> NoLongerStreaming (cont_id t) \<in> set (logs s'))
              ((tasks s)[i := (tasks s ! i)\<lparr>pc := Selecting\<rparr>])"
        using all
        by (intro list_all_mono_update[where P = "\<lambda>t. pc t = Exited \<longrightarrow> NoLongerStreaming (cont_id t) \<in> set (logs s)"])
          (simp_all add: s')
      then show ?thesis by (simp add: s' exits_logged_def)
    next
      case (Handoff i)
      with st obtain x where i: "i < length (tasks s)"
        and s': "s' = s\<lparr>tasks := (tasks s)[i := (tasks s ! i)\<lparr>pc := Selecting\<rparr>],
                     out := fprintf_stat (out s) x\<rparr>"
        by (auto split: if_splits fwd.splits)
      have "list_all (\<lambda>t. pc t = Exited \<longrightarrow> NoLongerStreaming (cont_id t) \<in> set (logs s'))
              ((tasks s)[i := (tasks s ! i)\<lparr>pc := Selecting\<rparr>])"
        using all
        by (intro list_all_mono_update[where P = "\<lambda>t. pc t = Exited \<longrightarrow> NoLongerStreaming (cont_id t) \<in> set (logs s)"])
          (simp_all add: s')
      then show ?thesis by (simp add: s' exits_logged_def)
    next
      case (FwdRecv i)
      show ?thesis
      proof (cases "contStats (tasks s ! i)")
        case Closed
        with FwdRecv st have i: "i < length (tasks s)"
          and s': "s' = s\<lparr>tasks := (tasks s)[i := (tasks s ! i)\<lparr>pc := Exited\<rparr>],
                       logs := logs s @ [NoLongerStreaming (cont_id (tasks s ! i))]\<rparr>"
          by (auto split: if_splits)
        have "list_all (\<lambda>t. pc t = Exited \<longrightarrow> NoLongerStreaming (cont_id t) \<in> set (logs s'))
                ((tasks s)[i := (tasks s ! i)\<lparr>pc := Exited\<rparr>])"
          using all
          by (intro list_all_mono_update[where P = "\<lambda>t. pc t = Exited \<longrightarrow> NoLongerStreaming (cont_id t) \<in> set (logs s)"])
            (simp_all add: s')
        then show ?thesis by (simp add: s' exits_logged_def)
      next
        case (Streaming zs)
        with FwdRecv st obtain x xs where i: "i < length (tasks s)"
          and s': "s' = s\<lparr>tasks := (tasks s)[i := (tasks s ! i)\<lparr>contStats := Streaming xs, pc := Sending x\<rparr>],
                       logs := logs s @ [Received (cont_id (tasks s ! i))]\<rparr>"
          by (auto split: if_splits list.splits)
        have "list_all (\<lambda>t. pc t = Exited \<longrightarrow> NoLongerStreaming (cont_id t) \<in> set (logs s'))
                ((tasks s)[i := (tasks s ! i)\<lparr>contStats := Streaming xs, pc := Sending x\<rparr>])"
          using all
          by (intro list_all_mono_update[where P = "\<lambda>t. pc t = Exited \<longrightarrow> NoLongerStreaming (cont_id t) \<in> set (logs s)"])
            (simp_all add: s')
        then show ?thesis by (simp add: s' exits_logged_def)
      qed
    qed
  qed
qed

lemma init_exits_logged: "exits_logged (logStatsForContainers daemon ids)"
  by (simp add: exits_logged_def logStatsForContainers_def list_all_iff)

lemma run_exits_logged: "exits_logged s \<Longrightarrow> run as s = Some s' \<Longrightarrow> exits_logged s'"
  by (rule run_invariant[where P = exits_logged, OF step_exits_logged])

text \<open>
  What is left for a forwarder whose stream has closed: start if it has not started,
  hand over the value it holds, then receive on the closed channel.
\<close>

fun wind_up :: "nat \<Rightarrow> 'a fwd \<Rightarrow> action list" where
  "wind_up i Spawned = [FwdStart i, FwdRecv i]"
| "wind_up i Selecting = [FwdRecv i]"
| "wind_up i (Sending x) = [Handoff i, FwdRecv i]"
| "wind_up i Exited = []"

text \<open>
  The schedule that brings everything forwarder \<open>j\<close> holds or has still to receive to
  the sink.
\<close>

definition forward_all :: "nat \<Rightarrow> 'a forwarder \<Rightarrow> action list" where
  "forward_all j t =
     (case pc t of Spawned \<Rightarrow> [FwdStart j] | Sending x \<Rightarrow> [Handoff j] | _ \<Rightarrow> [])
     @ deliver j (length (pending (contStats t)))"

lemma wind_up_run:
  assumes i: "i < length (tasks s)" and closed: "contStats (tasks s ! i) = Closed"
    and m: "merger s = Merging" and live: "pc (tasks s ! i) \<noteq> Exited"
  shows "\<exists>s'. run (wind_up i (pc (tasks s ! i))) s = Some s' \<and> pc (tasks s' ! i) = Exited
           \<and> last (logs s') = NoLongerStreaming (cont_id (tasks s ! i))
           \<and> (\<forall>j. j \<noteq> i \<longrightarrow> tasks s' ! j = tasks s ! j)"
proof (cases "pc (tasks s ! i)")
  case Spawned
  with i closed show ?thesis by simp
next
  case Selecting
  with i closed show ?thesis by simp
next
  case (Sending x)
  with i closed m show ?thesis by simp
next
  case Exited
  with live show ?thesis by simp
qed

lemma forward_all_run:
  assumes j: "j < length (tasks s)" and live: "pc (tasks s ! j) \<noteq> Exited"
    and xs: "contStats (tasks s ! j) = Streaming xs" and m: "merger s = Merging"
  shows "\<exists>s''. run (forward_all j (tasks s ! j)) s = Some s''
           \<and> out s'' = out s @ nonnil (backlog (tasks s ! j))
           \<and> (\<forall>k. k \<noteq> j \<longrightarrow> tasks s'' ! k = tasks s ! k)"
proof -
  have go: "\<exists>s''. run (deliver j (length xs)) s1 = Some s'' \<and> out s'' = out s1 @ nonnil xs
              \<and> (\<forall>k. k \<noteq> j \<longrightarrow> tasks s'' ! k = tasks s1 ! k)"
    if "j < length (tasks s1)" "pc (tasks s1 ! j) = Selecting"
      "contStats (tasks s1 ! j) = Streaming xs" "merger s1 = Merging" for s1 :: "'a collector"
    using deliver_run[of j s1 xs "[]"] that by auto
  show ?thesis
  proof (cases "pc (tasks s ! j)")
    case Selecting
    with go[of s] j xs m show ?thesis by (simp add: forward_all_def backlog_def)
  next
    case Spawned
    let ?s1 = "s\<lparr>tasks := (tasks s)[j := (tasks s ! j)\<lparr>pc := Selecting\<rparr>],
                  logs := logs s @ [Listening (cont_id (tasks s ! j))]\<rparr>"
    have 1: "step (FwdStart j) s = Some ?s1" using j Spawned by simp
    from go[of ?s1] j xs m obtain s'' where
      "run (deliver j (length xs)) ?s1 = Some s''" "out s'' = out ?s1 @ nonnil xs"
      "\<forall>k. k \<noteq> j \<longrightarrow> tasks s'' ! k = tasks ?s1 ! k"
      by auto
    with 1 Spawned xs show ?thesis by (auto simp: forward_all_def backlog_def)
  next
    case (Sending x)
    let ?s1 = "s\<lparr>tasks := (tasks s)[j := (tasks s ! j)\<lparr>pc := Selecting\<rparr>],
                  out := fprintf_stat (out s) x\<rparr>"
    have 1: "step (Handoff j) s = Some ?s1" using j Sending m by simp
    from go[of ?s1] j xs m obtain s'' where
      "run (deliver j (length xs)) ?s1 = Some s''" "out s'' = out ?s1 @ nonnil xs"
      "\<forall>k. k \<noteq> j \<longrightarrow> tasks s'' ! k = tasks ?s1 ! k"
      by auto
    with 1 Sending xs show ?thesis
      by (auto simp: forward_all_def backlog_def fprintf_stat_nonnil nonnil_Cons[of x xs])
  next
    case Exited
    with live show ?thesis by simp
  qed
qed

lemma reached_basics:
  assumes "run as (logStatsForContainers daemon ids) = Some s"
  shows "map cont_id (tasks s) = ids \<and> length (tasks s) = length ids
         \<and> precancel_ok s \<and> exits_logged s"
proof -
  have "map cont_id (tasks s) = ids"
    using run_cont_ids[OF assms] by (simp add: logStatsForContainers_def comp_def)
  moreover from this have "length (tasks s) = length ids" by (metis length_map)
  moreover have "precancel_ok s" by (rule run_precancel_ok[OF init_precancel_ok assms])
  moreover have "exits_logged s" by (rule run_exits_logged[OF init_exits_logged assms])
  ultimately show ?thesis by simp
qed

text \<open>
  C4, as the code has it, in every configuration the collector reaches in which the
  stream of container \<open>i\<close> has closed.
  \<^item> When the forwarder of \<open>i\<close>, waiting in its \<^verbatim>\<open>select\<close>, takes the receive branch, it gets
    \<^verbatim>\<open>!ok\<close>, prints \<^verbatim>\<open>Container ... is no longer streaming\<close> and returns. Nothing else
    changes: every other forwarder, the merge loop, the sink and the context are as
    before.
  \<^item> While the cancellation signal has not fired, this is how it ends: the forwarder
    cannot take its \<^verbatim>\<open>ctx.Done()\<close> branch, a forwarder that has returned has printed the
    line, and one that has not returned can always get there (after starting, or
    after handing over the value it holds) without any other forwarder moving.
  \<^item> Once the signal has fired, the waiting forwarder can just as well take its
    \<^verbatim>\<open>ctx.Done()\<close> branch: it returns without printing the line. Here too only this
    forwarder is affected.
  \<^item> Any other container \<open>j\<close> whose forwarder has not returned and whose stream is open
    gets everything it holds or has still to receive forwarded and written, in order,
    as long as the merge loop is running.
\<close>

theorem closed_stream_ends_only_its_forwarder:
  assumes "run as (logStatsForContainers daemon ids) = Some s" and "i < length ids"
    and "contStats (tasks s ! i) = Closed"
  shows "(pc (tasks s ! i) = Selecting \<longrightarrow>
            (\<exists>s'. step (FwdRecv i) s = Some s'
                \<and> pc (tasks s' ! i) = Exited
                \<and> logs s' = logs s @ [NoLongerStreaming (ids ! i)]
                \<and> length (tasks s') = length (tasks s)
                \<and> (\<forall>j. j \<noteq> i \<longrightarrow> tasks s' ! j = tasks s ! j)
                \<and> merger s' = merger s \<and> out s' = out s \<and> ctxDone s' = ctxDone s))
       \<and> (\<not> ctxDone s \<longrightarrow>
            step (FwdDone i) s = None
            \<and> (pc (tasks s ! i) = Exited \<longrightarrow> NoLongerStreaming (ids ! i) \<in> set (logs s))
            \<and> (pc (tasks s ! i) \<noteq> Exited \<longrightarrow>
                 (\<exists>s'. run (wind_up i (pc (tasks s ! i))) s = Some s'
                     \<and> pc (tasks s' ! i) = Exited
                     \<and> last (logs s') = NoLongerStreaming (ids ! i)
                     \<and> (\<forall>j. j \<noteq> i \<longrightarrow> tasks s' ! j = tasks s ! j))))
       \<and> (ctxDone s \<and> pc (tasks s ! i) = Selecting \<longrightarrow>
            (\<exists>s'. step (FwdDone i) s = Some s'
                \<and> pc (tasks s' ! i) = Exited \<and> logs s' = logs s
                \<and> (\<forall>j. j \<noteq> i \<longrightarrow> tasks s' ! j = tasks s ! j)
                \<and> merger s' = merger s \<and> out s' = out s))
       \<and> (\<forall>j xs. j \<noteq> i \<and> j < length ids \<and> merger s = Merging \<and> pc (tasks s ! j) \<noteq> Exited
                 \<and> contStats (tasks s ! j) = Streaming xs \<longrightarrow>
            (\<exists>s''. run (forward_all j (tasks s ! j)) s = Some s''
                 \<and> out s'' = out s @ nonnil (backlog (tasks s ! j))
                 \<and> (\<forall>k. k \<noteq> j \<longrightarrow> tasks s'' ! k = tasks s ! k)))"
proof -
  from reached_basics[OF assms(1)] have ids: "map cont_id (tasks s) = ids"
    and len: "length (tasks s) = length ids" and ok: "precancel_ok s" and lg: "exits_logged s"
    by simp_all
  have i: "i < length (tasks s)" using assms(2) len by simp
  have c: "cont_id (tasks s ! i) = ids ! i" using ids i by (metis nth_map)
  have recv: "\<exists>s'. step (FwdRecv i) s = Some s'
                \<and> pc (tasks s' ! i) = Exited
                \<and> logs s' = logs s @ [NoLongerStreaming (ids ! i)]
                \<and> length (tasks s') = length (tasks s)
                \<and> (\<forall>j. j \<noteq> i \<longrightarrow> tasks s' ! j = tasks s ! j)
                \<and> merger s' = merger s \<and> out s' = out s \<and> ctxDone s' = ctxDone s"
    if "pc (tasks s ! i) = Selecting"
    using that i assms(3) c by simp
  have before: "step (FwdDone i) s = None
            \<and> (pc (tasks s ! i) = Exited \<longrightarrow> NoLongerStreaming (ids ! i) \<in> set (logs s))
            \<and> (pc (tasks s ! i) \<noteq> Exited \<longrightarrow>
                 (\<exists>s'. run (wind_up i (pc (tasks s ! i))) s = Some s'
                     \<and> pc (tasks s' ! i) = Exited
                     \<and> last (logs s') = NoLongerStreaming (ids ! i)
                     \<and> (\<forall>j. j \<noteq> i \<longrightarrow> tasks s' ! j = tasks s ! j)))"
    if live: "\<not> ctxDone s"
  proof (intro conjI impI)
    show "step (FwdDone i) s = None" using live by simp
  next
    assume "pc (tasks s ! i) = Exited"
    moreover from lg live
    have "list_all (\<lambda>t. pc t = Exited \<longrightarrow> NoLongerStreaming (cont_id t) \<in> set (logs s)) (tasks s)"
      by (simp add: exits_logged_def)
    from list_all_nth[OF this i]
    have "pc (tasks s ! i) = Exited \<longrightarrow> NoLongerStreaming (cont_id (tasks s ! i)) \<in> set (logs s)" .
    ultimately show "NoLongerStreaming (ids ! i) \<in> set (logs s)" using c by simp
  next
    assume ne: "pc (tasks s ! i) \<noteq> Exited"
    from ok live have m: "merger s = Merging" by (simp add: precancel_ok_def)
    from wind_up_run[OF i assms(3) m ne] c
    show "\<exists>s'. run (wind_up i (pc (tasks s ! i))) s = Some s'
                     \<and> pc (tasks s' ! i) = Exited
                     \<and> last (logs s') = NoLongerStreaming (ids ! i)
                     \<and> (\<forall>j. j \<noteq> i \<longrightarrow> tasks s' ! j = tasks s ! j)"
      by simp
  qed
  have after: "\<exists>s'. step (FwdDone i) s = Some s'
                \<and> pc (tasks s' ! i) = Exited \<and> logs s' = logs s
                \<and> (\<forall>j. j \<noteq> i \<longrightarrow> tasks s' ! j = tasks s ! j)
                \<and> merger s' = merger s \<and> out s' = out s"
    if "ctxDone s \<and> pc (tasks s ! i) = Selecting"
    using that i by simp
  have others: "\<exists>s''. run (forward_all j (tasks s ! j)) s = Some s''
                 \<and> out s'' = out s @ nonnil (backlog (tasks s ! j))
                 \<and> (\<forall>k. k \<noteq> j \<longrightarrow> tasks s'' ! k = tasks s ! k)"
    if "j \<noteq> i \<and> j < length ids \<and> merger s = Merging \<and> pc (tasks s ! j) \<noteq> Exited
        \<and> contStats (tasks s ! j) = Streaming xs" for j xs
    using forward_all_run[of j s xs] that len by simp
  show ?thesis using recv before after others by blast
qed

text \<open>
  A run with two containers. \<^verbatim>\<open>c1\<close> streams one snapshot and ends; \<^verbatim>\<open>c2\<close> streams three
  values, one of them nil. After the schedule below the stream of \<^verbatim>\<open>c1\<close> has closed, its
  snapshot is written and its forwarder waits in \<^verbatim>\<open>select\<close>; the forwarder of \<^verbatim>\<open>c2\<close> holds
  its first snapshot.
\<close>

definition one_and_three :: "string \<Rightarrow> nat option list" where
  "one_and_three c = (if c = ''c1'' then [Some 1] else [Some 2, None, Some 3])"

definition until_closed :: "action list" where
  "until_closed = [FwdStart 0, FwdStart 1, FwdRecv 0, Handoff 0, StreamEnd 0, FwdRecv 1]"

definition stream_closed :: "nat collector" where
  "stream_closed =
     \<lparr>ctxDone = False,
      tasks = [\<lparr>cont_id = ''c1'', contStats = Closed, pc = Selecting\<rparr>,
               \<lparr>cont_id = ''c2'', contStats = Streaming [None, Some 3], pc = Sending (Some 2)\<rparr>],
      merger = Merging,
      out = [Some 1],
      logs = [Listening ''c1'', Listening ''c2'', Received ''c1'', Received ''c2'']\<rparr>"

lemma until_closed_reached:
  "run until_closed (logStatsForContainers one_and_three [''c1'', ''c2'']) = Some stream_closed"
  by (simp add: until_closed_def logStatsForContainers_def one_and_three_def stream_closed_def
        fprintf_stat_def)

text \<open>
  C4 on that run: the forwarder of \<^verbatim>\<open>c1\<close> prints its line and returns, \<^verbatim>\<open>c2\<close> is untouched,
  and the two snapshots \<^verbatim>\<open>c2\<close> still has are written after the one of \<^verbatim>\<open>c1\<close>.
\<close>

theorem closed_stream_ends_only_its_forwarder_witness:
  "run until_closed (logStatsForContainers one_and_three [''c1'', ''c2'']) = Some stream_closed
   \<and> contStats (tasks stream_closed ! 0) = Closed
   \<and> (\<exists>s'. step (FwdRecv 0) stream_closed = Some s'
          \<and> pc (tasks s' ! 0) = Exited
          \<and> logs s' = logs stream_closed @ [NoLongerStreaming ''c1'']
          \<and> tasks s' ! 1 = tasks stream_closed ! 1
          \<and> out s' = [Some 1])
   \<and> step (FwdDone 0) stream_closed = None
   \<and> (\<exists>s''. run [Handoff 1, FwdRecv 1, Handoff 1, FwdRecv 1, Handoff 1] stream_closed = Some s''
          \<and> out s'' = [Some 1, Some 2, Some 3]
          \<and> tasks s'' ! 0 = tasks stream_closed ! 0)"
proof -
  have c: "contStats (tasks stream_closed ! 0) = Closed" by (simp add: stream_closed_def)
  have lt: "(0::nat) < length [''c1'', ''c2'']" by simp
  note inst = closed_stream_ends_only_its_forwarder[OF until_closed_reached lt c]
  have sel: "pc (tasks stream_closed ! 0) = Selecting" by (simp add: stream_closed_def)
  have live: "\<not> ctxDone stream_closed" by (simp add: stream_closed_def)
  from inst[THEN conjunct1, THEN mp, OF sel]
  have 1: "\<exists>s'. step (FwdRecv 0) stream_closed = Some s'
          \<and> pc (tasks s' ! 0) = Exited
          \<and> logs s' = logs stream_closed @ [NoLongerStreaming ''c1'']
          \<and> tasks s' ! 1 = tasks stream_closed ! 1
          \<and> out s' = [Some 1]"
    by (auto simp: stream_closed_def)
  from inst[THEN conjunct2, THEN conjunct1, THEN mp, OF live, THEN conjunct1]
  have 2: "step (FwdDone 0) stream_closed = None" .
  have fa: "forward_all 1 (tasks stream_closed ! 1)
              = [Handoff 1, FwdRecv 1, Handoff 1, FwdRecv 1, Handoff 1]"
    by (simp add: forward_all_def stream_closed_def deliver_def numeral_2_eq_2)
  have bl: "out stream_closed @ nonnil (backlog (tasks stream_closed ! 1))
              = [Some 1, Some 2, Some 3]"
    by (simp add: stream_closed_def backlog_def nonnil_def)
  have pre: "(1::nat) \<noteq> 0 \<and> (1::nat) < length [''c1'', ''c2''] \<and> merger stream_closed = Merging
             \<and> pc (tasks stream_closed ! 1) \<noteq> Exited
             \<and> contStats (tasks stream_closed ! 1) = Streaming [None, Some 3]"
    by (simp add: stream_closed_def)
  note all = inst[THEN conjunct2, THEN conjunct2, THEN conjunct2, THEN spec, THEN spec,
      THEN mp, OF pre]
  have 3: "\<exists>s''. run [Handoff 1, FwdRecv 1, Handoff 1, FwdRecv 1, Handoff 1] stream_closed = Some s''
          \<and> out s'' = [Some 1, Some 2, Some 3]
          \<and> tasks s'' ! 0 = tasks stream_closed ! 0"
  proof -
    from all[unfolded fa bl] obtain s'' where
      r: "run [Handoff 1, FwdRecv 1, Handoff 1, FwdRecv 1, Handoff 1] stream_closed = Some s''"
      and o: "out s'' = [Some 1, Some 2, Some 3]"
      and k: "\<forall>k. k \<noteq> 1 \<longrightarrow> tasks s'' ! k = tasks stream_closed ! k"
      by blast
    from k[THEN spec, of 0] have "tasks s'' ! 0 = tasks stream_closed ! 0" by simp
    with r o show ?thesis by blast
  qed
  from until_closed_reached c 1 2 3 show ?thesis by blast
qed

text \<open>
  C4 as the specification words it does not hold. The stream of the only container
  ends, then the cancellation signal fires, and the forwarder leaves through its
  \<^verbatim>\<open>ctx.Done()\<close> branch: the stream has ended and the task has returned, but the log has
  no \<^verbatim>\<open>no longer streaming\<close> line.
\<close>

theorem closed_stream_may_end_silently:
  "run [FwdStart 0, FwdRecv 0, Handoff 0, StreamEnd 0, Cancel, FwdDone 0]
       (logStatsForContainers (\<lambda>c. [Some (1::nat)]) [''c1''])
     = Some \<lparr>ctxDone = True,
             tasks = [\<lparr>cont_id = ''c1'', contStats = Closed, pc = Exited\<rparr>],
             merger = Merging,
             out = [Some 1],
             logs = [Listening ''c1'', Received ''c1'']\<rparr>"
  by (simp add: logStatsForContainers_def fprintf_stat_def)

section \<open>Lifecycle verification and the exit code\<close>

text \<open>
  The sequential part of the harness talks to the daemon through the client library and
  prints to the log and to standard output. A run is modelled by the list of these
  events and by how it ends: a function either returns a value or ends the process
  with an exit code (\<^verbatim>\<open>os.Exit\<close>). The daemon's answers are the environment.
\<close>

type_synonym error = string

text \<open>
  The client calls of lifecycle verification, each with what the code passes: the
  container identifier and the timeout. \<open>StopCall\<close> carries the number of seconds
  handed to \<^verbatim>\<open>client.StopContainer\<close> (which takes no context); the other calls carry
  the timeout of the context they are given, in nanoseconds, or \<open>None\<close> when they are
  given no context.
\<close>

datatype call =
    StopCall string nat
  | KillCall string "int option"
  | InspectCall string "int option"
  | RemoveCall string "int option"

fun ctx_timeout :: "call \<Rightarrow> int option" where
  "ctx_timeout (StopCall c secs) = None"
| "ctx_timeout (KillCall c d) = d"
| "ctx_timeout (InspectCall c d) = d"
| "ctx_timeout (RemoveCall c d) = d"

datatype logmsg =
    ErrorLine error
  | LoggingEventsTo string
  | LoggingStatsTo string
  | LoggingTo string string
  | ConfigStop bool
  | ConfigRemove bool
  | BuildingImage
  | WaitingFor
  | CouldNotStop string
  | WillTryInspect string
  | ErrorInspecting error
  | SuccessfullyInspected string
  | RemovingContainer string
  | TryingToRemove string
  | CouldNotRemove string
  | RemovedContainer string
  | RunAffected nat

text \<open>
  The flags of \<^verbatim>\<open>os.OpenFile\<close>, and the goroutines \<^verbatim>\<open>main\<close> starts: the event logger
  with the name of its sink, the stats collector with the name of its sink and the
  containers it follows.
\<close>

datatype flag = O_CREATE | O_WRONLY | O_APPEND | O_TRUNC

datatype goroutine = LogEvents string | LogStats string "string list"

datatype event =
    Call call
  | Log logmsg
  | Stdout string
  | Open string "flag list" nat
  | Go goroutine
  | Sleep nat
  | CancelCtx
  | RemoveImage string

type_synonym 'a proc = "event list \<times> (nat + 'a)"

definition ret :: "'a \<Rightarrow> 'a proc" where
  "ret v = ([], Inr v)"

definition emit :: "event \<Rightarrow> unit proc" where
  "emit e = ([e], Inr ())"

definition os_Exit :: "nat \<Rightarrow> 'a proc" where
  "os_Exit code = ([], Inl code)"

definition and_then :: "'a proc \<Rightarrow> ('a \<Rightarrow> 'b proc) \<Rightarrow> 'b proc" where
  "and_then p f =
     (case snd p of
        Inl code \<Rightarrow> (fst p, Inl code)
      | Inr v \<Rightarrow> (fst p @ fst (f v), snd (f v)))"

text \<open>The exit code of a run: \<open>0\<close> when \<^verbatim>\<open>main\<close> returns.\<close>

definition exit_code :: "'a proc \<Rightarrow> nat" where
  "exit_code p = (case snd p of Inl code \<Rightarrow> code | Inr v \<Rightarrow> 0)"

text \<open>What a run has written to standard output, as one string.\<close>

definition stdout_of :: "'a proc \<Rightarrow> string" where
  "stdout_of p = concat (map (\<lambda>e. case e of Stdout l \<Rightarrow> l | _ \<Rightarrow> []) (fst p))"

definition calls_of :: "'a proc \<Rightarrow> call list" where
  "calls_of p = concat (map (\<lambda>e. case e of Call c \<Rightarrow> [c] | _ \<Rightarrow> []) (fst p))"

text \<open>\<^verbatim>\<open>failOnError\<close> (lines 216-221 and 487-492): log the error and exit with code 1.\<close>

definition failOnError :: "error option \<Rightarrow> unit proc" where
  "failOnError err =
     (case err of
        None \<Rightarrow> ret ()
      | Some e \<Rightarrow> and_then (emit (Log (ErrorLine e))) (\<lambda>_. os_Exit 1))"

text \<open>
  The daemon as the client library shows it. \<open>BuildImage\<close> is the answer to the image
  build: the build log, which the library writes to the \<^verbatim>\<open>OutputStream\<close> of the options
  (\<^verbatim>\<open>buildImageOptions\<close> sets it to \<^verbatim>\<open>os.Stdout\<close>), and the error, if any.
  \<open>CreateContainer k\<close> is the answer to the
  \<open>k\<close>-th creation: an error or the new container's identifier.
  \<open>InspectContainerWithContext\<close> answers with an error or the identifier of the
  inspected container. A call whose context expires answers with an error like any
  other failure.
\<close>

record docker =
  NewClientFromEnv :: "error option"
  BuildImage :: "string \<times> error option"
  AddEventListener :: "error option"
  CreateContainer :: "nat \<Rightarrow> error + string"
  StartContainer :: "string \<Rightarrow> error option"
  StopContainer :: "string \<Rightarrow> nat \<Rightarrow> error option"
  KillContainer :: "string \<Rightarrow> int option \<Rightarrow> error option"
  InspectContainerWithContext :: "string \<Rightarrow> int option \<Rightarrow> error + string"
  RemoveContainer :: "string \<Rightarrow> int option \<Rightarrow> error option"

text \<open>
  The constants of the later variant (\<^verbatim>\<open>src/unnamed/part_000\<close>, lines 260-273) and of
  the earlier one (lines 16-25). \<^verbatim>\<open>time.Second\<close> is a number of nanoseconds.
\<close>

definition callTimeoutSecs :: nat where
  "callTimeoutSecs = 15"

definition callTimeoutSecs_early :: nat where
  "callTimeoutSecs_early = 10"

definition configStopContainer :: bool where
  "configStopContainer = False"

definition configRemoveContainer :: bool where
  "configRemoveContainer = False"

definition time_Second :: int where
  "time_Second = 1000000000"

text \<open>
  \<^verbatim>\<open>context.WithTimeout(context.Background(), time.Duration(secs)*time.Second)\<close>: the
  timeout the context carries.
\<close>

definition withTimeout :: "nat \<Rightarrow> int option" where
  "withTimeout secs = Some (int secs * time_Second)"

text \<open>
  \<^verbatim>\<open>stopAndCheckContainer\<close> of the later variant (lines 347-383). The two configuration
  constants are parameters, so that the optional calls can be talked about; the
  harness runs it with \<open>configStopContainer\<close> and \<open>configRemoveContainer\<close>.
\<close>

definition stopAndCheckContainer ::
  "bool \<Rightarrow> bool \<Rightarrow> docker \<Rightarrow> string \<Rightarrow> error option proc" where
  "stopAndCheckContainer stopCfg removeCfg client cont =
     and_then
       (if stopCfg then
          and_then (emit (Call (KillCall cont (withTimeout callTimeoutSecs)))) (\<lambda>_.
            case KillContainer client cont (withTimeout callTimeoutSecs) of
              Some e \<Rightarrow> and_then (emit (Log (CouldNotStop cont))) (\<lambda>_.
                          emit (Log (WillTryInspect cont)))
            | None \<Rightarrow> ret ())
        else ret ()) (\<lambda>_.
     and_then (emit (Call (InspectCall cont (withTimeout callTimeoutSecs)))) (\<lambda>_.
       case InspectContainerWithContext client cont (withTimeout callTimeoutSecs) of
         Inl e \<Rightarrow> and_then (emit (Log (ErrorInspecting e))) (\<lambda>_. ret (Some e))
       | Inr insp \<Rightarrow>
           and_then (emit (Log (SuccessfullyInspected insp))) (\<lambda>_.
             if removeCfg then
               and_then (emit (Log (TryingToRemove insp))) (\<lambda>_.
               and_then (emit (Call (RemoveCall cont None))) (\<lambda>_.
                 case RemoveContainer client cont None of
                   Some e \<Rightarrow> and_then (emit (Log (CouldNotRemove insp))) (\<lambda>_. ret (Some e))
                 | None \<Rightarrow> and_then (emit (Log (RemovedContainer insp))) (\<lambda>_. ret None)))
             else ret None)))"

text \<open>\<^verbatim>\<open>stopAndCheckContainer\<close> of the earlier variant (lines 117-138).\<close>

definition stopAndCheckContainer_early :: "docker \<Rightarrow> string \<Rightarrow> error option proc" where
  "stopAndCheckContainer_early client cont =
     and_then (emit (Call (StopCall cont callTimeoutSecs_early))) (\<lambda>_.
     and_then
       (case StopContainer client cont callTimeoutSecs_early of
          Some e \<Rightarrow> and_then (emit (Log (CouldNotStop cont))) (\<lambda>_.
                      emit (Log (WillTryInspect cont)))
        | None \<Rightarrow> ret ()) (\<lambda>_.
     and_then (emit (Call (InspectCall cont (withTimeout callTimeoutSecs_early)))) (\<lambda>_.
       case InspectContainerWithContext client cont (withTimeout callTimeoutSecs_early) of
         Inl e \<Rightarrow> ret (Some e)
       | Inr insp \<Rightarrow>
           and_then (emit (Log (SuccessfullyInspected insp))) (\<lambda>_.
           and_then (emit (Log (RemovingContainer insp))) (\<lambda>_.
           and_then (emit (Call (RemoveCall cont None))) (\<lambda>_.
             ret (RemoveContainer client cont None)))))))"

text \<open>
  The loop of \<^verbatim>\<open>main\<close> (lines 330-336): verify every container in turn and collect the
  ones whose verification returned an error.
\<close>

fun check_containers :: "docker \<Rightarrow> string list \<Rightarrow> string list \<Rightarrow> string list proc" where
  "check_containers client [] affected = ret affected"
| "check_containers client (cont # conts) affected =
     and_then (stopAndCheckContainer configStopContainer configRemoveContainer client cont) (\<lambda>err.
       check_containers client conts (if err \<noteq> None then affected @ [cont] else affected))"

text \<open>\<^verbatim>\<open>createContainer\<close> (lines 453-461), called for the \<open>k\<close>-th time.\<close>

definition createContainer :: "docker \<Rightarrow> nat \<Rightarrow> (string option \<times> error option)" where
  "createContainer client k =
     (case CreateContainer client k of Inl e \<Rightarrow> (None, Some e) | Inr c \<Rightarrow> (Some c, None))"

text \<open>The line \<^verbatim>\<open>fmt.Printf("# docker inspect %s\n", c.ID)\<close> of line 341.\<close>

definition inspect_command :: "string \<Rightarrow> string" where
  "inspect_command c = ''# docker inspect '' @ c @ [CHR 0x0A]"

text \<open>
  \<^verbatim>\<open>main\<close> of the later variant (lines 283-345). After a failed creation the container
  is nil, but \<^verbatim>\<open>failOnError\<close> has ended the process before it is used. Both
  configuration lines of the log print \<^verbatim>\<open>configRemoveContainer\<close>, as lines 288-289 do.
  \<^verbatim>\<open>log.Printf\<close> writes to the log (standard error); standard output receives the
  build log during \<^verbatim>\<open>cl.BuildImage\<close> and the lines of \<^verbatim>\<open>fmt.Printf\<close>.
\<close>

definition main :: "docker \<Rightarrow> unit proc" where
  "main client =
     and_then (failOnError (NewClientFromEnv client)) (\<lambda>_.
     and_then (emit (Log (ConfigStop configRemoveContainer))) (\<lambda>_.
     and_then (emit (Log (ConfigRemove configRemoveContainer))) (\<lambda>_.
     and_then (emit (Log BuildingImage)) (\<lambda>_.
     and_then (emit (Stdout (fst (BuildImage client)))) (\<lambda>_.
     and_then (failOnError (snd (BuildImage client))) (\<lambda>_.
     and_then (failOnError (snd (createContainer client 0))) (\<lambda>_.
     and_then (failOnError (snd (createContainer client 1))) (\<lambda>_.
       case (fst (createContainer client 0), fst (createContainer client 1)) of
         (Some cont1, Some cont2) \<Rightarrow>
           and_then (failOnError (StartContainer client cont1)) (\<lambda>_.
           and_then
             (case StartContainer client cont2 of
                Some e \<Rightarrow>
                  and_then (stopAndCheckContainer configStopContainer configRemoveContainer client cont1)
                    (\<lambda>_. failOnError (Some e))
              | None \<Rightarrow> ret ()) (\<lambda>_.
           and_then (emit (Log WaitingFor)) (\<lambda>_.
           and_then (check_containers client [cont1, cont2] []) (\<lambda>affected.
             if length affected \<noteq> 0 then
               and_then (emit (Log (RunAffected (length affected)))) (\<lambda>_.
               and_then (map (\<lambda>c. Stdout (inspect_command c)) affected, Inr ()) (\<lambda>_.
                 os_Exit 2))
             else ret ()))))
       | _ \<Rightarrow> ret ()))))))))"


section \<open>Log files\<close>

text \<open>
  The operating system as the harness sees it: \<open>now\<close> is the start time as
  \<^verbatim>\<open>Format(time.RFC3339)\<close> prints it, \<open>OpenFile name flags perm\<close> is the error of opening
  a file, if any.
\<close>

record os =
  now :: string
  OpenFile :: "string \<Rightarrow> flag list \<Rightarrow> nat \<Rightarrow> error option"

text \<open>The permission bits \<^verbatim>\<open>0640\<close>.\<close>

definition perm_0640 :: nat where
  "perm_0640 = 6 * 64 + 4 * 8"


text \<open>\<^verbatim>\<open>runDuration\<close>, and the literal of \<^verbatim>\<open>src/main.go\<close>: ten seconds.\<close>

definition runDuration :: nat where
  "runDuration = 10"

text \<open>
  \<^verbatim>\<open>logFiles\<close> of the earlier variant (lines 199-214): the names of the two sinks it has
  opened.
\<close>

definition logFiles :: "os \<Rightarrow> (string \<times> string) proc" where
  "logFiles sys =
     (let stamp = now sys;
          statsoutName = ''statsout-'' @ stamp;
          eventsoutName = ''eventsout-'' @ stamp
      in and_then (emit (Log (LoggingEventsTo eventsoutName))) (\<lambda>_.
         and_then (emit (Log (LoggingStatsTo statsoutName))) (\<lambda>_.
         and_then (emit (Open statsoutName [O_CREATE, O_WRONLY] perm_0640)) (\<lambda>_.
         and_then (failOnError (OpenFile sys statsoutName [O_CREATE, O_WRONLY] perm_0640)) (\<lambda>_.
         and_then (emit (Open eventsoutName [O_CREATE, O_WRONLY] perm_0640)) (\<lambda>_.
         and_then (failOnError (OpenFile sys eventsoutName [O_CREATE, O_WRONLY] perm_0640)) (\<lambda>_.
           ret (statsoutName, eventsoutName))))))))"

text \<open>
  \<^verbatim>\<open>logFile\<close> of the later variant (lines 474-485); the later \<^verbatim>\<open>main\<close> never calls it.
\<close>

definition logFile :: "os \<Rightarrow> string \<Rightarrow> string proc" where
  "logFile sys name =
     (let stamp = now sys;
          statsoutName = name @ ''-'' @ stamp
      in and_then (emit (Log (LoggingTo name statsoutName))) (\<lambda>_.
         and_then (emit (Open statsoutName [O_CREATE, O_WRONLY] perm_0640)) (\<lambda>_.
         and_then (failOnError (OpenFile sys statsoutName [O_CREATE, O_WRONLY] perm_0640)) (\<lambda>_.
           ret statsoutName))))"

text \<open>
  \<^verbatim>\<open>main\<close> of the earlier variant (lines 54-115). The deferred \<^verbatim>\<open>cancel()\<close> runs when
  \<^verbatim>\<open>main\<close> returns, not when the process exits through \<^verbatim>\<open>os.Exit\<close>.
\<close>

definition main_early :: "os \<Rightarrow> docker \<Rightarrow> unit proc" where
  "main_early sys client =
     and_then (logFiles sys) (\<lambda>(statsout, eventsout).
     and_then (failOnError (NewClientFromEnv client)) (\<lambda>_.
     and_then (emit (Log BuildingImage)) (\<lambda>_.
     and_then (emit (Stdout (fst (BuildImage client)))) (\<lambda>_.
     and_then (failOnError (snd (BuildImage client))) (\<lambda>_.
     and_then (failOnError (AddEventListener client)) (\<lambda>_.
     and_then (emit (Go (LogEvents eventsout))) (\<lambda>_.
     and_then (failOnError (snd (createContainer client 0))) (\<lambda>_.
     and_then (failOnError (snd (createContainer client 1))) (\<lambda>_.
       case (fst (createContainer client 0), fst (createContainer client 1)) of
         (Some cont1, Some cont2) \<Rightarrow>
           and_then (failOnError (StartContainer client cont1)) (\<lambda>_.
           and_then
             (case StartContainer client cont2 of
                Some e \<Rightarrow> and_then (stopAndCheckContainer_early client cont1) (\<lambda>_. failOnError (Some e))
              | None \<Rightarrow> ret ()) (\<lambda>_.
           and_then (emit (Go (LogStats statsout [cont1, cont2]))) (\<lambda>_.
           and_then (emit (Log WaitingFor)) (\<lambda>_.
           and_then (emit (Sleep runDuration)) (\<lambda>_.
           and_then (emit CancelCtx) (\<lambda>_.
           and_then (stopAndCheckContainer_early client cont1) (\<lambda>err1.
           and_then (stopAndCheckContainer_early client cont2) (\<lambda>err2.
             if \<not> (err1 = None \<and> err2 = None) then os_Exit 2 else emit CancelCtx))))))))
       | _ \<Rightarrow> ret ())))))))))"








definition opens_of :: "'a proc \<Rightarrow> (string \<times> flag list \<times> nat) list" where
  "opens_of p = concat (map (\<lambda>e. case e of Open n f m \<Rightarrow> [(n, f, m)] | _ \<Rightarrow> []) (fst p))"

section \<open>Facts about runs of the sequential part\<close>

lemma snd_and_then:
  "snd (and_then p f) = (case snd p of Inl code \<Rightarrow> Inl code | Inr v \<Rightarrow> snd (f v))"
  by (simp add: and_then_def split: sum.splits)

lemma fst_and_then:
  "fst (and_then p f) = fst p @ (case snd p of Inl code \<Rightarrow> [] | Inr v \<Rightarrow> fst (f v))"
  by (simp add: and_then_def split: sum.splits)

lemma proc_basics [simp]:
  "fst (ret v) = []" "snd (ret v) = Inr v"
  "fst (emit e) = [e]" "snd (emit e) = Inr ()"
  "fst (os_Exit code) = []" "snd (os_Exit code) = Inl code"
  by (simp_all add: ret_def emit_def os_Exit_def)

lemma failOnError_snd [simp]:
  "snd (failOnError err) = (case err of None \<Rightarrow> Inr () | Some e \<Rightarrow> Inl 1)"
  by (simp add: failOnError_def snd_and_then split: option.splits)

lemma failOnError_fst [simp]:
  "fst (failOnError err) = (case err of None \<Rightarrow> [] | Some e \<Rightarrow> [Log (ErrorLine e)])"
  by (simp add: failOnError_def fst_and_then split: option.splits)

lemma exit_code_and_then:
  "exit_code (and_then p f) = (case snd p of Inl code \<Rightarrow> code | Inr v \<Rightarrow> exit_code (f v))"
  by (simp add: exit_code_def snd_and_then split: sum.splits)

lemma calls_of_and_then:
  "calls_of (and_then p f) = calls_of p @ (case snd p of Inl code \<Rightarrow> [] | Inr v \<Rightarrow> calls_of (f v))"
  by (simp add: calls_of_def fst_and_then snd_and_then split: sum.splits)

lemma stdout_of_and_then:
  "stdout_of (and_then p f) = stdout_of p @ (case snd p of Inl code \<Rightarrow> [] | Inr v \<Rightarrow> stdout_of (f v))"
  by (simp add: stdout_of_def fst_and_then split: sum.splits)


text \<open>What \<^verbatim>\<open>stopAndCheckContainer\<close> returns, and which calls it issues.\<close>

lemma stopAndCheckContainer_returns:
  "snd (stopAndCheckContainer stopCfg removeCfg client cont)
   = Inr (case InspectContainerWithContext client cont (withTimeout callTimeoutSecs) of
            Inl e \<Rightarrow> Some e
          | Inr insp \<Rightarrow> if removeCfg then RemoveContainer client cont None else None)"
  by (simp add: stopAndCheckContainer_def snd_and_then split: option.splits sum.splits)

lemma stopAndCheckContainer_early_returns:
  "snd (stopAndCheckContainer_early client cont)
   = Inr (case InspectContainerWithContext client cont (withTimeout callTimeoutSecs_early) of
            Inl e \<Rightarrow> Some e
          | Inr insp \<Rightarrow> RemoveContainer client cont None)"
  by (simp add: stopAndCheckContainer_early_def snd_and_then split: option.splits sum.splits)

lemma stopAndCheckContainer_calls:
  "calls_of (stopAndCheckContainer stopCfg removeCfg client cont)
   = (if stopCfg then [KillCall cont (withTimeout callTimeoutSecs)] else [])
     @ [InspectCall cont (withTimeout callTimeoutSecs)]
     @ (case InspectContainerWithContext client cont (withTimeout callTimeoutSecs) of
          Inl e \<Rightarrow> []
        | Inr insp \<Rightarrow> if removeCfg then [RemoveCall cont None] else [])"
  by (simp add: stopAndCheckContainer_def calls_of_def fst_and_then snd_and_then split: option.splits sum.splits)

lemma stopAndCheckContainer_early_calls:
  "calls_of (stopAndCheckContainer_early client cont)
   = [StopCall cont callTimeoutSecs_early, InspectCall cont (withTimeout callTimeoutSecs_early)]
     @ (case InspectContainerWithContext client cont (withTimeout callTimeoutSecs_early) of
          Inl e \<Rightarrow> []
        | Inr insp \<Rightarrow> [RemoveCall cont None])"
  by (simp add: stopAndCheckContainer_early_def calls_of_def fst_and_then snd_and_then split: option.splits sum.splits)

lemma stopAndCheckContainer_stdout: "stdout_of (stopAndCheckContainer stopCfg removeCfg client cont) = []"
  by (simp add: stopAndCheckContainer_def stdout_of_def fst_and_then snd_and_then split: option.splits sum.splits)


text \<open>A container fails verification when \<^verbatim>\<open>stopAndCheckContainer\<close> returns an error.\<close>

definition fails_verification :: "docker \<Rightarrow> string \<Rightarrow> bool" where
  "fails_verification client cont =
     (snd (stopAndCheckContainer configStopContainer configRemoveContainer client cont) \<noteq> Inr None)"

lemma check_containers_returns:
  "snd (check_containers client conts affected)
   = Inr (affected @ filter (fails_verification client) conts)"
proof (induction conts arbitrary: affected)
  case Nil
  then show ?case by simp
next
  case (Cons cont conts)
  show ?case
    by (simp add: snd_and_then Cons.IH fails_verification_def stopAndCheckContainer_returns
        split: sum.splits)
qed

lemma check_containers_stdout: "stdout_of (check_containers client conts affected) = []"
proof (induction conts arbitrary: affected)
  case Nil
  then show ?case by (simp add: stdout_of_def)
next
  case (Cons cont conts)
  show ?case
    by (simp add: stdout_of_and_then stopAndCheckContainer_stdout Cons.IH
        stopAndCheckContainer_returns)
qed


lemma check_containers_calls:
  "calls_of (check_containers client conts affected)
   = concat (map (\<lambda>c. calls_of (stopAndCheckContainer configStopContainer configRemoveContainer client c)) conts)"
proof (induction conts arbitrary: affected)
  case Nil
  then show ?case by (simp add: calls_of_def)
next
  case (Cons cont conts)
  show ?case
    by (simp add: calls_of_and_then Cons.IH stopAndCheckContainer_returns)
qed

section \<open>C7: exit codes\<close>

text \<open>
  The first setup failure of the later \<^verbatim>\<open>main\<close>, in the order the program makes its
  setup calls: client initialisation, image build, the two creations, the two starts.
\<close>

definition setup_error :: "docker \<Rightarrow> error option" where
  "setup_error client =
     (case NewClientFromEnv client of
        Some e \<Rightarrow> Some e
      | None \<Rightarrow>
          (case snd (BuildImage client) of
             Some e \<Rightarrow> Some e
           | None \<Rightarrow>
               (case CreateContainer client 0 of
                  Inl e \<Rightarrow> Some e
                | Inr cont1 \<Rightarrow>
                    (case CreateContainer client 1 of
                       Inl e \<Rightarrow> Some e
                     | Inr cont2 \<Rightarrow>
                         (case StartContainer client cont1 of
                            Some e \<Rightarrow> Some e
                          | None \<Rightarrow> StartContainer client cont2)))))"

definition created :: "docker \<Rightarrow> string list" where
  "created client =
     (case (CreateContainer client 0, CreateContainer client 1) of
        (Inr cont1, Inr cont2) \<Rightarrow> [cont1, cont2]
      | _ \<Rightarrow> [])"

definition affected_containers :: "docker \<Rightarrow> string list" where
  "affected_containers client = filter (fails_verification client) (created client)"

lemma main_after_setup:
  assumes "setup_error client = None"
  shows "\<exists>cont1 cont2 evs.
           created client = [cont1, cont2]
           \<and> main client =
               and_then (evs, Inr ()) (\<lambda>_.
               and_then (check_containers client [cont1, cont2] []) (\<lambda>affected.
                 if length affected \<noteq> 0 then
                   and_then (emit (Log (RunAffected (length affected)))) (\<lambda>_.
                   and_then (map (\<lambda>c. Stdout (inspect_command c)) affected, Inr ()) (\<lambda>_.
                     os_Exit 2))
                 else ret ()))
           \<and> stdout_of (evs, Inr ()) = fst (BuildImage client)"
proof -
  from assms obtain cont1 cont2 where ok: "NewClientFromEnv client = None"
    "snd (BuildImage client) = None"
    "CreateContainer client 0 = Inr cont1" "CreateContainer client 1 = Inr cont2"
    "StartContainer client cont1 = None" "StartContainer client cont2 = None"
    by (auto simp: setup_error_def split: option.splits sum.splits)
  let ?evs = "[Log (ConfigStop configRemoveContainer), Log (ConfigRemove configRemoveContainer),
               Log BuildingImage, Stdout (fst (BuildImage client)), Log WaitingFor]"
  have "created client = [cont1, cont2]" using ok by (simp add: created_def)
  moreover have "main client =
               and_then (?evs, Inr ()) (\<lambda>_.
               and_then (check_containers client [cont1, cont2] []) (\<lambda>affected.
                 if length affected \<noteq> 0 then
                   and_then (emit (Log (RunAffected (length affected)))) (\<lambda>_.
                   and_then (map (\<lambda>c. Stdout (inspect_command c)) affected, Inr ()) (\<lambda>_.
                     os_Exit 2))
                 else ret ()))"
    using ok
    by (simp add: main_def createContainer_def and_then_def failOnError_def ret_def emit_def)
  moreover have "stdout_of (?evs, Inr ()) = fst (BuildImage client)" by (simp add: stdout_of_def)
  ultimately show ?thesis by blast
qed

lemma stdout_of_quiet:
  "stdout_of (emit (Log m)) = []" "stdout_of (emit (Call c)) = []" "stdout_of (ret v) = []"
  "stdout_of (os_Exit k) = []" "stdout_of (emit (Stdout l)) = l"
  by (simp_all add: stdout_of_def)

lemma stdout_of_failOnError: "stdout_of (failOnError err) = []"
  by (cases err) (simp_all add: stdout_of_def)

lemma main_setup_failure:
  assumes "setup_error client \<noteq> None"
  shows "exit_code (main client) = 1
         \<and> stdout_of (main client)
             = (case NewClientFromEnv client of None \<Rightarrow> fst (BuildImage client) | Some e \<Rightarrow> [])"
  using assms
  by (auto simp: setup_error_def main_def createContainer_def exit_code_and_then stdout_of_and_then
      snd_and_then stopAndCheckContainer_returns stopAndCheckContainer_stdout
      stdout_of_quiet stdout_of_failOnError exit_code_def[of "failOnError e" for e]
      split: option.splits sum.splits)

lemma stdout_of_lines: "stdout_of (map (\<lambda>c. Stdout (f c)) cs, r) = concat (map f cs)"
  by (induction cs) (simp_all add: stdout_of_def)

lemma main_verdict:
  assumes "setup_error client = None"
  shows "exit_code (main client) = (if affected_containers client = [] then 0 else 2)
         \<and> stdout_of (main client)
             = fst (BuildImage client) @ concat (map inspect_command (affected_containers client))"
proof -
  from main_after_setup[OF assms] obtain cont1 cont2 evs where
    c: "created client = [cont1, cont2]"
    and m: "main client =
               and_then (evs, Inr ()) (\<lambda>_.
               and_then (check_containers client [cont1, cont2] []) (\<lambda>affected.
                 if length affected \<noteq> 0 then
                   and_then (emit (Log (RunAffected (length affected)))) (\<lambda>_.
                   and_then (map (\<lambda>c. Stdout (inspect_command c)) affected, Inr ()) (\<lambda>_.
                     os_Exit 2))
                 else ret ()))"
    and build: "stdout_of (evs, Inr ()) = fst (BuildImage client)"
    by blast
  have r: "snd (check_containers client [cont1, cont2] []) = Inr (affected_containers client)"
    using check_containers_returns[of client "[cont1, cont2]" "[]"] c
    by (simp add: affected_containers_def)
  have q: "stdout_of (check_containers client [cont1, cont2] []) = []"
    by (rule check_containers_stdout)
  show ?thesis
  proof (cases "affected_containers client = []")
    case True
    with r q build show ?thesis
      by (simp add: m exit_code_and_then stdout_of_and_then exit_code_def[of "ret x" for x]
          stdout_of_quiet)
  next
    case False
    with r q build show ?thesis
      by (simp add: m exit_code_and_then stdout_of_and_then snd_and_then stdout_of_lines
          exit_code_def[of "os_Exit x" for x] stdout_of_quiet)
  qed
qed

lemma logFile_open_failure:
  assumes "OpenFile sys (name @ ''-'' @ now sys) [O_CREATE, O_WRONLY] perm_0640 \<noteq> None"
  shows "exit_code (logFile sys name) = 1"
  using assms by (auto simp: logFile_def Let_def exit_code_and_then)

lemma logFiles_open_failure:
  assumes "OpenFile sys (''statsout-'' @ now sys) [O_CREATE, O_WRONLY] perm_0640 \<noteq> None
           \<or> OpenFile sys (''eventsout-'' @ now sys) [O_CREATE, O_WRONLY] perm_0640 \<noteq> None"
  shows "exit_code (logFiles sys) = 1"
  using assms by (auto simp: logFiles_def Let_def exit_code_and_then split: option.splits)

text \<open>
  C7, for \<^verbatim>\<open>main\<close> of the later variant (lines 283-345), whatever the daemon answers.
  \<^item> A setup failure (client initialisation, image build, container creation or start)
    ends the process with code 1. Standard output then holds the build log, if the run
    got as far as the build, and nothing else.
  \<^item> With no setup failure and no container failing verification, \<^verbatim>\<open>main\<close> returns:
    exit code 0, and standard output holds the build log only.
  \<^item> With no setup failure and at least one container failing verification the exit
    code is 2, and standard output holds, after the build log, one line
    \<^verbatim>\<open># docker inspect <id>\<close> for each affected container, in the order they were
    verified.
  \<^item> A failure to open a log file ends the process with code 1 (\<^verbatim>\<open>logFile\<close> of the later
    variant, \<^verbatim>\<open>logFiles\<close> of the earlier one).
\<close>

theorem exit_codes:
  "(setup_error client \<noteq> None \<longrightarrow>
      exit_code (main client) = 1
      \<and> stdout_of (main client)
          = (case NewClientFromEnv client of None \<Rightarrow> fst (BuildImage client) | Some e \<Rightarrow> []))
   \<and> (setup_error client = None \<and> affected_containers client = [] \<longrightarrow>
         exit_code (main client) = 0 \<and> stdout_of (main client) = fst (BuildImage client))
   \<and> (setup_error client = None \<and> affected_containers client \<noteq> [] \<longrightarrow>
         exit_code (main client) = 2
         \<and> stdout_of (main client)
             = fst (BuildImage client) @ concat (map inspect_command (affected_containers client)))
   \<and> (OpenFile sys (name @ ''-'' @ now sys) [O_CREATE, O_WRONLY] perm_0640 \<noteq> None \<longrightarrow>
         exit_code (logFile sys name) = 1)
   \<and> (OpenFile sys (''statsout-'' @ now sys) [O_CREATE, O_WRONLY] perm_0640 \<noteq> None
        \<or> OpenFile sys (''eventsout-'' @ now sys) [O_CREATE, O_WRONLY] perm_0640 \<noteq> None \<longrightarrow>
         exit_code (logFiles sys) = 1)"
proof (intro conjI impI)
  assume "setup_error client \<noteq> None"
  from main_setup_failure[OF this]
  show "exit_code (main client) = 1"
    and "stdout_of (main client)
          = (case NewClientFromEnv client of None \<Rightarrow> fst (BuildImage client) | Some e \<Rightarrow> [])"
    by simp_all
next
  assume a: "setup_error client = None \<and> affected_containers client = []"
  with main_verdict[of client]
  show "exit_code (main client) = 0" and "stdout_of (main client) = fst (BuildImage client)"
    by simp_all
next
  assume a: "setup_error client = None \<and> affected_containers client \<noteq> []"
  with main_verdict[of client]
  show "exit_code (main client) = 2"
    and "stdout_of (main client)
          = fst (BuildImage client) @ concat (map inspect_command (affected_containers client))"
    by simp_all
next
  assume "OpenFile sys (name @ ''-'' @ now sys) [O_CREATE, O_WRONLY] perm_0640 \<noteq> None"
  then show "exit_code (logFile sys name) = 1" by (rule logFile_open_failure)
next
  assume "OpenFile sys (''statsout-'' @ now sys) [O_CREATE, O_WRONLY] perm_0640 \<noteq> None
          \<or> OpenFile sys (''eventsout-'' @ now sys) [O_CREATE, O_WRONLY] perm_0640 \<noteq> None"
  then show "exit_code (logFiles sys) = 1" by (rule logFiles_open_failure)
qed

text \<open>
  Three daemons: one that answers every call, one whose image build fails, and one
  that never answers the inspection of \<open>c2\<close> within the timeout. The last is the
  scenario of the specification: exit code 2, and the command for \<open>c2\<close> on standard
  output, after the build log. A file system that refuses every open makes \<^verbatim>\<open>logFile\<close>
  and \<^verbatim>\<open>logFiles\<close> exit with code 1.
\<close>

definition all_ok :: docker where
  "all_ok = \<lparr>NewClientFromEnv = None,
             BuildImage = (''Successfully built'' @ [CHR 0x0A], None),
             AddEventListener = None,
             CreateContainer = (\<lambda>k. Inr (if k = 0 then ''c1'' else ''c2'')),
             StartContainer = (\<lambda>c. None), StopContainer = (\<lambda>c n. None),
             KillContainer = (\<lambda>c d. None),
             InspectContainerWithContext = (\<lambda>c d. Inr c),
             RemoveContainer = (\<lambda>c d. None)\<rparr>"

definition build_fails :: docker where
  "build_fails = all_ok\<lparr>BuildImage := (''Step 1/3'' @ [CHR 0x0A], Some ''no such image'')\<rparr>"

definition inspect_hangs :: docker where
  "inspect_hangs =
     all_ok\<lparr>InspectContainerWithContext :=
              (\<lambda>c d. if c = ''c2'' then Inl ''context deadline exceeded'' else Inr c)\<rparr>"

definition read_only :: os where
  "read_only = \<lparr>now = ''2018-03-21T10:00:00Z'', OpenFile = (\<lambda>n f m. Some ''permission denied'')\<rparr>"

theorem exit_codes_witness:
  "setup_error build_fails = Some ''no such image''
   \<and> exit_code (main build_fails) = 1
   \<and> stdout_of (main build_fails) = ''Step 1/3'' @ [CHR 0x0A]
   \<and> setup_error all_ok = None \<and> affected_containers all_ok = []
   \<and> exit_code (main all_ok) = 0
   \<and> stdout_of (main all_ok) = ''Successfully built'' @ [CHR 0x0A]
   \<and> setup_error inspect_hangs = None \<and> affected_containers inspect_hangs = [''c2'']
   \<and> exit_code (main inspect_hangs) = 2
   \<and> stdout_of (main inspect_hangs)
       = ''Successfully built'' @ [CHR 0x0A] @ ''# docker inspect c2'' @ [CHR 0x0A]
   \<and> exit_code (logFile read_only ''statsout'') = 1
   \<and> exit_code (logFiles read_only) = 1"
proof -
  have s: "setup_error build_fails = Some ''no such image''" "setup_error all_ok = None"
    "setup_error inspect_hangs = None"
    by (simp_all add: setup_error_def build_fails_def all_ok_def inspect_hangs_def)
  have a: "affected_containers all_ok = []" "affected_containers inspect_hangs = [''c2'']"
    by (simp_all add: affected_containers_def created_def fails_verification_def
        stopAndCheckContainer_returns all_ok_def inspect_hangs_def)
  have b: "NewClientFromEnv build_fails = None"
    "fst (BuildImage build_fails) = ''Step 1/3'' @ [CHR 0x0A]"
    "fst (BuildImage all_ok) = ''Successfully built'' @ [CHR 0x0A]"
    "fst (BuildImage inspect_hangs) = ''Successfully built'' @ [CHR 0x0A]"
    by (simp_all add: build_fails_def all_ok_def inspect_hangs_def)
  have o: "OpenFile read_only (''statsout'' @ ''-'' @ now read_only) [O_CREATE, O_WRONLY] perm_0640 \<noteq> None"
    "OpenFile read_only (''statsout-'' @ now read_only) [O_CREATE, O_WRONLY] perm_0640 \<noteq> None"
    by (simp_all add: read_only_def)
  note e1 = exit_codes[of build_fails read_only "''statsout''"]
  note e2 = exit_codes[of all_ok read_only "''statsout''"]
  note e3 = exit_codes[of inspect_hangs read_only "''statsout''"]
  from e1 s b have "exit_code (main build_fails) = 1
      \<and> stdout_of (main build_fails) = ''Step 1/3'' @ [CHR 0x0A]" by simp
  moreover from e2 s a b have "exit_code (main all_ok) = 0
      \<and> stdout_of (main all_ok) = ''Successfully built'' @ [CHR 0x0A]" by simp
  moreover from e3 s a b have "exit_code (main inspect_hangs) = 2
      \<and> stdout_of (main inspect_hangs)
          = ''Successfully built'' @ [CHR 0x0A] @ ''# docker inspect c2'' @ [CHR 0x0A]"
    by (simp add: inspect_command_def)
  moreover from e1 o have "exit_code (logFile read_only ''statsout'') = 1
      \<and> exit_code (logFiles read_only) = 1" by simp
  ultimately show ?thesis using s a by simp
qed

section \<open>C6: which errors mark a container as affected\<close>

text \<open>
  C6, as the code has it. \<^verbatim>\<open>stopAndCheckContainer\<close> returns an error, and the later
  \<^verbatim>\<open>main\<close> then puts the container on its \<open>affected\<close> list, exactly when the inspect call
  returns an error (a context timeout included: it is an error like any other) or,
  where the remove call is made, when the remove call returns one. An error of the
  stop or kill call is logged and otherwise ignored: with the inspect call and the
  remove call succeeding, the function returns nil. This holds for the later variant
  with any setting of its two configuration constants and for the earlier variant,
  which always stops and removes. As configured (no kill, no remove), a container is
  affected exactly when its inspect call fails.
\<close>

theorem inspect_or_remove_error_marks_affected:
  "(InspectContainerWithContext client cont (withTimeout callTimeoutSecs) = Inl e \<longrightarrow>
      snd (stopAndCheckContainer stopCfg removeCfg client cont) = Inr (Some e))
   \<and> (InspectContainerWithContext client cont (withTimeout callTimeoutSecs) = Inr insp \<and> removeCfg \<longrightarrow>
      snd (stopAndCheckContainer stopCfg removeCfg client cont) = Inr (RemoveContainer client cont None))
   \<and> (InspectContainerWithContext client cont (withTimeout callTimeoutSecs) = Inr insp \<and> \<not> removeCfg \<longrightarrow>
      snd (stopAndCheckContainer stopCfg removeCfg client cont) = Inr None)
   \<and> (InspectContainerWithContext client cont (withTimeout callTimeoutSecs_early) = Inl e \<longrightarrow>
      snd (stopAndCheckContainer_early client cont) = Inr (Some e))
   \<and> (InspectContainerWithContext client cont (withTimeout callTimeoutSecs_early) = Inr insp \<longrightarrow>
      snd (stopAndCheckContainer_early client cont) = Inr (RemoveContainer client cont None))
   \<and> snd (check_containers client conts []) = Inr (filter (fails_verification client) conts)
   \<and> (fails_verification client cont \<longleftrightarrow>
        (\<exists>e. InspectContainerWithContext client cont (withTimeout callTimeoutSecs) = Inl e))"
proof (intro conjI impI)
  assume "InspectContainerWithContext client cont (withTimeout callTimeoutSecs) = Inl e"
  then show "snd (stopAndCheckContainer stopCfg removeCfg client cont) = Inr (Some e)"
    by (simp add: stopAndCheckContainer_returns)
next
  assume "InspectContainerWithContext client cont (withTimeout callTimeoutSecs) = Inr insp \<and> removeCfg"
  then show "snd (stopAndCheckContainer stopCfg removeCfg client cont) = Inr (RemoveContainer client cont None)"
    by (simp add: stopAndCheckContainer_returns)
next
  assume "InspectContainerWithContext client cont (withTimeout callTimeoutSecs) = Inr insp \<and> \<not> removeCfg"
  then show "snd (stopAndCheckContainer stopCfg removeCfg client cont) = Inr None"
    by (simp add: stopAndCheckContainer_returns)
next
  assume "InspectContainerWithContext client cont (withTimeout callTimeoutSecs_early) = Inl e"
  then show "snd (stopAndCheckContainer_early client cont) = Inr (Some e)"
    by (simp add: stopAndCheckContainer_early_returns)
next
  assume "InspectContainerWithContext client cont (withTimeout callTimeoutSecs_early) = Inr insp"
  then show "snd (stopAndCheckContainer_early client cont) = Inr (RemoveContainer client cont None)"
    by (simp add: stopAndCheckContainer_early_returns)
next
  show "snd (check_containers client conts []) = Inr (filter (fails_verification client) conts)"
    using check_containers_returns[of client conts "[]"] by simp
next
  show "fails_verification client cont \<longleftrightarrow>
        (\<exists>e. InspectContainerWithContext client cont (withTimeout callTimeoutSecs) = Inl e)"
    by (cases "InspectContainerWithContext client cont (withTimeout callTimeoutSecs)")
      (simp_all add: fails_verification_def stopAndCheckContainer_returns configRemoveContainer_def)
qed

text \<open>
  A daemon that lets the inspection of \<open>c2\<close> run into its timeout, and one that refuses
  to remove \<open>c1\<close>.
\<close>

definition remove_fails :: docker where
  "remove_fails = all_ok\<lparr>RemoveContainer := (\<lambda>c d. if c = ''c1'' then Some ''conflict'' else None)\<rparr>"

theorem inspect_or_remove_error_marks_affected_witness:
  "InspectContainerWithContext inspect_hangs ''c2'' (withTimeout callTimeoutSecs)
     = Inl ''context deadline exceeded''
   \<and> snd (stopAndCheckContainer True True inspect_hangs ''c2'') = Inr (Some ''context deadline exceeded'')
   \<and> snd (stopAndCheckContainer_early inspect_hangs ''c2'') = Inr (Some ''context deadline exceeded'')
   \<and> InspectContainerWithContext remove_fails ''c1'' (withTimeout callTimeoutSecs) = Inr ''c1''
   \<and> snd (stopAndCheckContainer False True remove_fails ''c1'') = Inr (Some ''conflict'')
   \<and> snd (stopAndCheckContainer False False remove_fails ''c1'') = Inr None
   \<and> snd (stopAndCheckContainer_early remove_fails ''c1'') = Inr (Some ''conflict'')
   \<and> snd (check_containers inspect_hangs [''c1'', ''c2''] []) = Inr [''c2'']
   \<and> fails_verification inspect_hangs ''c2'' \<and> \<not> fails_verification inspect_hangs ''c1''"
proof -
  have i: "InspectContainerWithContext inspect_hangs ''c2'' (withTimeout callTimeoutSecs)
             = Inl ''context deadline exceeded''"
    "InspectContainerWithContext inspect_hangs ''c2'' (withTimeout callTimeoutSecs_early)
             = Inl ''context deadline exceeded''"
    "InspectContainerWithContext inspect_hangs ''c1'' (withTimeout callTimeoutSecs) = Inr ''c1''"
    "InspectContainerWithContext remove_fails ''c1'' (withTimeout callTimeoutSecs) = Inr ''c1''"
    "InspectContainerWithContext remove_fails ''c1'' (withTimeout callTimeoutSecs_early) = Inr ''c1''"
    "RemoveContainer remove_fails ''c1'' None = Some ''conflict''"
    by (simp_all add: inspect_hangs_def remove_fails_def all_ok_def)
  note t1 = inspect_or_remove_error_marks_affected
    [of inspect_hangs "''c2''" "''context deadline exceeded''" True True _ "[''c1'', ''c2'']"]
  note t2 = inspect_or_remove_error_marks_affected
    [of remove_fails "''c1''" _ False True "''c1''" "[]"]
  note t3 = inspect_or_remove_error_marks_affected
    [of remove_fails "''c1''" _ False False "''c1''" "[]"]
  note t4 = inspect_or_remove_error_marks_affected
    [of inspect_hangs "''c1''" _ False False "''c1''" "[]"]
  from t1 i have "snd (stopAndCheckContainer True True inspect_hangs ''c2'') = Inr (Some ''context deadline exceeded'')"
    "snd (stopAndCheckContainer_early inspect_hangs ''c2'') = Inr (Some ''context deadline exceeded'')"
    "fails_verification inspect_hangs ''c2''"
    by simp_all
  moreover from t2 i have "snd (stopAndCheckContainer False True remove_fails ''c1'') = Inr (Some ''conflict'')"
    "snd (stopAndCheckContainer_early remove_fails ''c1'') = Inr (Some ''conflict'')"
    by simp_all
  moreover from t3 i have "snd (stopAndCheckContainer False False remove_fails ''c1'') = Inr None"
    by simp
  moreover from t4 i have n: "\<not> fails_verification inspect_hangs ''c1''" by simp
  moreover from t1 calculation(3) n have "snd (check_containers inspect_hangs [''c1'', ''c2''] []) = Inr [''c2'']"
    by simp
  ultimately show ?thesis using i by simp
qed

text \<open>
  The claim as written fails for the stop and kill calls. This daemon fails every stop
  and every kill and answers everything else: both variants of
  \<^verbatim>\<open>stopAndCheckContainer\<close> return nil, and the earlier \<^verbatim>\<open>main\<close>, which always stops,
  ends with exit code 0.
\<close>

definition stop_fails :: docker where
  "stop_fails = all_ok\<lparr>StopContainer := (\<lambda>c n. Some ''cannot stop''),
                       KillContainer := (\<lambda>c d. Some ''cannot kill'')\<rparr>"

definition writable :: os where
  "writable = \<lparr>now = ''2018-03-21T10:00:00Z'', OpenFile = (\<lambda>n f m. None)\<rparr>"

theorem stop_error_does_not_mark_affected:
  "StopContainer stop_fails ''c1'' callTimeoutSecs_early = Some ''cannot stop''
   \<and> stopAndCheckContainer_early stop_fails ''c1''
       = ([Call (StopCall ''c1'' 10), Log (CouldNotStop ''c1''), Log (WillTryInspect ''c1''),
           Call (InspectCall ''c1'' (Some 10000000000)), Log (SuccessfullyInspected ''c1''),
           Log (RemovingContainer ''c1''), Call (RemoveCall ''c1'' None)],
          Inr None)
   \<and> KillContainer stop_fails ''c1'' (withTimeout callTimeoutSecs) = Some ''cannot kill''
   \<and> stopAndCheckContainer True True stop_fails ''c1''
       = ([Call (KillCall ''c1'' (Some 15000000000)), Log (CouldNotStop ''c1''),
           Log (WillTryInspect ''c1''), Call (InspectCall ''c1'' (Some 15000000000)),
           Log (SuccessfullyInspected ''c1''), Log (TryingToRemove ''c1''),
           Call (RemoveCall ''c1'' None), Log (RemovedContainer ''c1'')],
          Inr None)
   \<and> exit_code (main_early writable stop_fails) = 0"
  by (simp add: stop_fails_def all_ok_def writable_def stopAndCheckContainer_early_def
      stopAndCheckContainer_def main_early_def logFiles_def createContainer_def
      and_then_def emit_def ret_def failOnError_def os_Exit_def exit_code_def withTimeout_def
      callTimeoutSecs_def callTimeoutSecs_early_def time_Second_def Let_def)

section \<open>C8: the timeouts of the lifecycle calls\<close>

lemma main_calls:
  "set (calls_of (main client))
   \<subseteq> (\<Union>c. set (calls_of (stopAndCheckContainer configStopContainer configRemoveContainer client c)))"
proof -
  have chk: "set (calls_of (check_containers client conts acc))
             \<subseteq> (\<Union>c. set (calls_of (stopAndCheckContainer configStopContainer configRemoveContainer client c)))"
    for conts acc
    by (auto simp: check_containers_calls)
  have quiet: "calls_of (emit (Log m)) = []" "calls_of (emit (Stdout l)) = []"
    "calls_of (ret v) = []" "calls_of (os_Exit n) = []"
    for m l and v :: 'x and n
    by (simp_all add: calls_of_def)
  have quiet_fail: "calls_of (failOnError err) = []" for err
    by (cases err) (simp_all add: calls_of_def)
  have quiet_lines: "calls_of (map (\<lambda>c. Stdout (f c)) cs, r) = []"
    for f :: "string \<Rightarrow> string" and cs and r :: "nat + unit"
    by (induction cs) (simp_all add: calls_of_def)
  show ?thesis
    unfolding main_def
    using chk
    by (auto simp: calls_of_and_then snd_and_then quiet quiet_fail quiet_lines createContainer_def
        stopAndCheckContainer_returns check_containers_returns
        split: option.splits sum.splits if_splits)
qed

text \<open>
  C8, as the code has it. In the later variant the kill call (made only when
  \<open>configStopContainer\<close> is set) and the inspect call are each given a context with a
  timeout of \<open>callTimeoutSecs = 15\<close> seconds; the remove call is given no context.
  Every lifecycle call the later \<^verbatim>\<open>main\<close> issues, as configured, carries the 15-second
  context. In the earlier variant the constant is 10: the inspect call is given a
  context with a 10-second timeout, and the stop call is \<^verbatim>\<open>client.StopContainer\<close> with
  the number 10 as the daemon's stop timeout and no context.
\<close>

theorem lifecycle_call_timeouts:
  "calls_of (stopAndCheckContainer stopCfg removeCfg client cont)
     = (if stopCfg then [KillCall cont (Some (15 * time_Second))] else [])
       @ [InspectCall cont (Some (15 * time_Second))]
       @ (case InspectContainerWithContext client cont (withTimeout callTimeoutSecs) of
            Inl e \<Rightarrow> []
          | Inr insp \<Rightarrow> if removeCfg then [RemoveCall cont None] else [])
   \<and> (\<forall>c\<in>set (calls_of (main client)). ctx_timeout c = Some (15 * time_Second))
   \<and> calls_of (stopAndCheckContainer_early client cont)
     = [StopCall cont 10, InspectCall cont (Some (10 * time_Second))]
       @ (case InspectContainerWithContext client cont (withTimeout callTimeoutSecs_early) of
            Inl e \<Rightarrow> []
          | Inr insp \<Rightarrow> [RemoveCall cont None])
   \<and> time_Second = 1000000000"
proof (intro conjI ballI)
  show "calls_of (stopAndCheckContainer stopCfg removeCfg client cont)
     = (if stopCfg then [KillCall cont (Some (15 * time_Second))] else [])
       @ [InspectCall cont (Some (15 * time_Second))]
       @ (case InspectContainerWithContext client cont (withTimeout callTimeoutSecs) of
            Inl e \<Rightarrow> []
          | Inr insp \<Rightarrow> if removeCfg then [RemoveCall cont None] else [])"
    by (simp add: stopAndCheckContainer_calls withTimeout_def callTimeoutSecs_def)
next
  fix c assume "c \<in> set (calls_of (main client))"
  with main_calls obtain c' where
    "c \<in> set (calls_of (stopAndCheckContainer configStopContainer configRemoveContainer client c'))"
    by blast
  then show "ctx_timeout c = Some (15 * time_Second)"
    by (auto simp: stopAndCheckContainer_calls configStopContainer_def configRemoveContainer_def
        withTimeout_def callTimeoutSecs_def split: sum.splits)
next
  show "calls_of (stopAndCheckContainer_early client cont)
     = [StopCall cont 10, InspectCall cont (Some (10 * time_Second))]
       @ (case InspectContainerWithContext client cont (withTimeout callTimeoutSecs_early) of
            Inl e \<Rightarrow> []
          | Inr insp \<Rightarrow> [RemoveCall cont None])"
    by (simp add: stopAndCheckContainer_early_calls withTimeout_def callTimeoutSecs_early_def)
next
  show "time_Second = 1000000000" by (simp add: time_Second_def)
qed

theorem lifecycle_call_timeouts_witness:
  "calls_of (main inspect_hangs)
     = [InspectCall ''c1'' (Some 15000000000), InspectCall ''c2'' (Some 15000000000)]
   \<and> ctx_timeout (InspectCall ''c2'' (Some 15000000000)) = Some (15 * time_Second)
   \<and> calls_of (stopAndCheckContainer True True inspect_hangs ''c1'')
     = [KillCall ''c1'' (Some 15000000000), InspectCall ''c1'' (Some 15000000000),
        RemoveCall ''c1'' None]"
proof -
  have m: "calls_of (main inspect_hangs)
     = [InspectCall ''c1'' (Some 15000000000), InspectCall ''c2'' (Some 15000000000)]"
    by (simp add: main_def inspect_hangs_def all_ok_def createContainer_def calls_of_def
        stopAndCheckContainer_def configStopContainer_def configRemoveContainer_def
        and_then_def emit_def ret_def failOnError_def os_Exit_def withTimeout_def
        callTimeoutSecs_def time_Second_def)
  note t = lifecycle_call_timeouts[of True True inspect_hangs "''c1''"]
  from t have "\<forall>c\<in>set (calls_of (main inspect_hangs)). ctx_timeout c = Some (15 * time_Second)"
    by blast
  with m have "ctx_timeout (InspectCall ''c2'' (Some 15000000000)) = Some (15 * time_Second)"
    by simp
  moreover from t have "calls_of (stopAndCheckContainer True True inspect_hangs ''c1'')
     = [KillCall ''c1'' (Some 15000000000), InspectCall ''c1'' (Some 15000000000),
        RemoveCall ''c1'' None]"
    by (simp add: inspect_hangs_def all_ok_def time_Second_def withTimeout_def)
  ultimately show ?thesis using m by simp
qed

text \<open>
  The claim as written fails for the earlier variant: its calls for a container, with
  a daemon that answers everything. The stop call has no context, and the context of
  the inspect call carries ten seconds, not fifteen.
\<close>

theorem early_variant_uses_ten_seconds:
  "calls_of (stopAndCheckContainer_early all_ok ''c1'')
     = [StopCall ''c1'' 10, InspectCall ''c1'' (Some 10000000000), RemoveCall ''c1'' None]
   \<and> ctx_timeout (StopCall ''c1'' 10) = None
   \<and> ctx_timeout (InspectCall ''c1'' (Some 10000000000)) = Some (10 * time_Second)
   \<and> 10 * time_Second \<noteq> 15 * time_Second"
  by (simp add: stopAndCheckContainer_early_def all_ok_def calls_of_def and_then_def emit_def
      ret_def withTimeout_def callTimeoutSecs_early_def time_Second_def)

section \<open>C9: the output files\<close>



lemma opens_of_basics [simp]:
  "opens_of (emit (Log m)) = []" "opens_of (emit (Call c)) = []" "opens_of (emit (Go g)) = []"
  "opens_of (emit (Sleep n)) = []" "opens_of (emit CancelCtx) = []"
  "opens_of (emit (RemoveImage i)) = []" "opens_of (emit (Stdout l)) = []"
  "opens_of (emit (Open name flags perm)) = [(name, flags, perm)]"
  "opens_of (ret v) = []" "opens_of (os_Exit k) = []"
  by (simp_all add: opens_of_def)

lemma opens_of_failOnError [simp]: "opens_of (failOnError err) = []"
  by (cases err) (simp_all add: opens_of_def)

lemma opens_of_lines [simp]: "opens_of (map (\<lambda>c. Stdout (f c)) cs, r) = []"
  by (induction cs) (simp_all add: opens_of_def)















end
